theory Spec2Isabelle
  imports Main "HOL-Library.Word"
begin

unbundle bit_operations_syntax

section \<open>Values of the JavaScript runtime\<close>

text \<open>
  A JavaScript string is a sequence of UTF-16 code units, a \<open>Buffer\<close> a sequence of
  bytes. String literals of the source are written \<open>js ''...''\<close>.
\<close>

type_synonym jstring = "16 word list"
type_synonym buffer = "8 word list"

definition js :: "string \<Rightarrow> jstring" where
  "js s = map of_char s"

text \<open>\<open>buf.toString('hex')\<close>: two lower-case hexadecimal digits per byte.\<close>

definition hex_digit :: "nat \<Rightarrow> 16 word" where
  "hex_digit n = js ''0123456789abcdef'' ! (n mod 16)"

definition hex_byte :: "8 word \<Rightarrow> jstring" where
  "hex_byte b = [hex_digit (unat b div 16), hex_digit (unat b mod 16)]"

definition toString_hex :: "buffer \<Rightarrow> jstring" where
  "toString_hex buf = concat (map hex_byte buf)"

text \<open>\<open>'0'.repeat(64)\<close>\<close>

definition zero_hash :: jstring where
  "zero_hash = replicate 64 0x30"

subsection \<open>JSON.stringify on strings and on arrays of strings\<close>

text \<open>
  \<open>QuoteJSONString\<close> of ECMA-262: the string is read as code points (a leading
  surrogate followed by a trailing one is one code point); the seven characters of the
  escape table get their two-character escape, other code units below 0x20 and lone
  surrogates are written \<open>\<backslash>uXXXX\<close> with lower-case digits, every other code point is
  copied.
\<close>

definition is_lead :: "16 word \<Rightarrow> bool" where
  "is_lead c = (0xD800 \<le> c \<and> c \<le> 0xDBFF)"

definition is_trail :: "16 word \<Rightarrow> bool" where
  "is_trail c = (0xDC00 \<le> c \<and> c \<le> 0xDFFF)"

definition unicode_escape :: "16 word \<Rightarrow> jstring" where
  "unicode_escape c =
     [0x5C, 0x75,
      hex_digit (unat c div 4096), hex_digit (unat c div 256),
      hex_digit (unat c div 16), hex_digit (unat c)]"

fun quote_body :: "jstring \<Rightarrow> jstring" where
  "quote_body [] = []"
| "quote_body [c] =
     (if c = 0x08 then [0x5C, 0x62]
      else if c = 0x09 then [0x5C, 0x74]
      else if c = 0x0A then [0x5C, 0x6E]
      else if c = 0x0C then [0x5C, 0x66]
      else if c = 0x0D then [0x5C, 0x72]
      else if c = 0x22 then [0x5C, 0x22]
      else if c = 0x5C then [0x5C, 0x5C]
      else if c < 0x20 \<or> is_lead c \<or> is_trail c then unicode_escape c
      else [c])"
| "quote_body (c # d # ds) =
     (if c = 0x08 then [0x5C, 0x62] @ quote_body (d # ds)
      else if c = 0x09 then [0x5C, 0x74] @ quote_body (d # ds)
      else if c = 0x0A then [0x5C, 0x6E] @ quote_body (d # ds)
      else if c = 0x0C then [0x5C, 0x66] @ quote_body (d # ds)
      else if c = 0x0D then [0x5C, 0x72] @ quote_body (d # ds)
      else if c = 0x22 then [0x5C, 0x22] @ quote_body (d # ds)
      else if c = 0x5C then [0x5C, 0x5C] @ quote_body (d # ds)
      else if c < 0x20 then unicode_escape c @ quote_body (d # ds)
      else if is_lead c \<and> is_trail d then c # d # quote_body ds
      else if is_lead c \<or> is_trail c then unicode_escape c @ quote_body (d # ds)
      else c # quote_body (d # ds))"

definition QuoteJSONString :: "jstring \<Rightarrow> jstring" where
  "QuoteJSONString v = [0x22] @ quote_body v @ [0x22]"

fun join_comma :: "jstring list \<Rightarrow> jstring" where
  "join_comma [] = []"
| "join_comma [x] = x"
| "join_comma (x # y # ys) = x @ [0x2C] @ join_comma (y # ys)"

text \<open>\<open>JSON.stringify(a)\<close> for an array \<open>a\<close> of strings (no indentation).\<close>

definition JSON_stringify_strings :: "jstring list \<Rightarrow> jstring" where
  "JSON_stringify_strings a = [0x5B] @ join_comma (map QuoteJSONString a) @ [0x5D]"

text \<open>\<open>JSON.stringify({ agentDisplayName: v })\<close>\<close>

definition JSON_stringify_displayName :: "jstring \<Rightarrow> jstring" where
  "JSON_stringify_displayName v =
     js ''{'' @ QuoteJSONString (js ''agentDisplayName'') @ js '':'' @ QuoteJSONString v @ js ''}''"

subsection \<open>JSON.parse\<close>

text \<open>
  The value \<open>JSON.parse\<close> builds. A number is kept as its lexeme, an object as the
  list of its members in the order of the text. \<open>None\<close> is the \<open>SyntaxError\<close>.
\<close>

datatype json =
    JNull
  | JBool bool
  | JNumber jstring
  | JString jstring
  | JArray "json list"
  | JObject "(jstring \<times> json) list"

definition is_ws :: "16 word \<Rightarrow> bool" where
  "is_ws c = (c = 0x20 \<or> c = 0x09 \<or> c = 0x0A \<or> c = 0x0D)"

definition skip_ws :: "jstring \<Rightarrow> jstring" where
  "skip_ws inp = dropWhile is_ws inp"

definition hex_value :: "16 word \<Rightarrow> nat option" where
  "hex_value c =
     (if 0x30 \<le> c \<and> c \<le> 0x39 then Some (unat c - 0x30)
      else if 0x61 \<le> c \<and> c \<le> 0x66 then Some (unat c - 0x61 + 10)
      else if 0x41 \<le> c \<and> c \<le> 0x46 then Some (unat c - 0x41 + 10)
      else None)"

definition hex4 :: "16 word \<Rightarrow> 16 word \<Rightarrow> 16 word \<Rightarrow> 16 word \<Rightarrow> 16 word option" where
  "hex4 a b c d =
     (case (hex_value a, hex_value b, hex_value c, hex_value d) of
        (Some p, Some q, Some r, Some t) \<Rightarrow> Some (of_nat (p * 4096 + q * 256 + r * 16 + t))
      | _ \<Rightarrow> None)"

text \<open>The characters of a string literal after its opening quote, up to the closing one.\<close>

fun parse_string_body :: "jstring \<Rightarrow> (jstring \<times> jstring) option" where
  "parse_string_body [] = None"
| "parse_string_body (c # cs) =
     (if c = 0x22 then Some ([], cs)
      else if c = 0x5C then
        (case cs of
           [] \<Rightarrow> None
         | x # r \<Rightarrow>
             if x = 0x75 then
               (case r of
                  h1 # h2 # h3 # h4 # r' \<Rightarrow>
                    (case hex4 h1 h2 h3 h4 of
                       None \<Rightarrow> None
                     | Some u \<Rightarrow> map_option (\<lambda>(v, t). (u # v, t)) (parse_string_body r'))
                | _ \<Rightarrow> None)
             else
               (case (if x = 0x22 then Some 0x22 else if x = 0x5C then Some 0x5C
                      else if x = 0x2F then Some 0x2F else if x = 0x62 then Some 0x08
                      else if x = 0x66 then Some 0x0C else if x = 0x6E then Some 0x0A
                      else if x = 0x72 then Some 0x0D else if x = 0x74 then Some 0x09
                      else None) of
                  None \<Rightarrow> None
                | Some u \<Rightarrow> map_option (\<lambda>(v, t). (u # v, t)) (parse_string_body r)))
      else if c < 0x20 then None
      else map_option (\<lambda>(v, t). (c # v, t)) (parse_string_body cs))"

definition is_digit :: "16 word \<Rightarrow> bool" where
  "is_digit c = (0x30 \<le> c \<and> c \<le> 0x39)"

text \<open>The lexeme of a number: \<open>-? (0 | [1-9][0-9]*) (. [0-9]+)? ([eE] [+-]? [0-9]+)?\<close>\<close>

definition lex_int :: "jstring \<Rightarrow> (jstring \<times> jstring) option" where
  "lex_int inp =
     (case inp of
        [] \<Rightarrow> None
      | c # cs \<Rightarrow>
          if c = 0x30 then Some ([c], cs)
          else if is_digit c then Some (c # takeWhile is_digit cs, dropWhile is_digit cs)
          else None)"

definition lex_frac :: "jstring \<Rightarrow> (jstring \<times> jstring) option" where
  "lex_frac inp =
     (case inp of
        [] \<Rightarrow> Some ([], inp)
      | c # cs \<Rightarrow>
          if c = 0x2E then
            (if takeWhile is_digit cs = [] then None
             else Some (c # takeWhile is_digit cs, dropWhile is_digit cs))
          else Some ([], inp))"

definition lex_exp :: "jstring \<Rightarrow> (jstring \<times> jstring) option" where
  "lex_exp inp =
     (case inp of
        [] \<Rightarrow> Some ([], inp)
      | c # cs \<Rightarrow>
          if c = 0x65 \<or> c = 0x45 then
            (let sign = (case cs of [] \<Rightarrow> [] | d # ds \<Rightarrow> if d = 0x2B \<or> d = 0x2D then [d] else []);
                 r = drop (length sign) cs
             in if takeWhile is_digit r = [] then None
                else Some (c # sign @ takeWhile is_digit r, dropWhile is_digit r))
          else Some ([], inp))"

definition lex_number :: "jstring \<Rightarrow> (jstring \<times> jstring) option" where
  "lex_number inp =
     (let sign = (case inp of [] \<Rightarrow> [] | c # cs \<Rightarrow> if c = 0x2D then [c] else [])
      in case lex_int (drop (length sign) inp) of
           None \<Rightarrow> None
         | Some (i, r1) \<Rightarrow>
             (case lex_frac r1 of
                None \<Rightarrow> None
              | Some (f, r2) \<Rightarrow>
                  (case lex_exp r2 of
                     None \<Rightarrow> None
                   | Some (x, r3) \<Rightarrow> Some (sign @ i @ f @ x, r3))))"

definition literal :: "string \<Rightarrow> jstring \<Rightarrow> jstring option" where
  "literal l inp = (if take (length l) inp = js l then Some (drop (length l) inp) else None)"

text \<open>
  A value, the elements of a non-empty array after its bracket, and the members of a
  non-empty object after its brace. The first argument bounds the number of nested
  calls; \<open>JSON_parse\<close> starts with more than the text can use.
\<close>

fun parse_value :: "nat \<Rightarrow> jstring \<Rightarrow> (json \<times> jstring) option"
  and parse_elements :: "nat \<Rightarrow> jstring \<Rightarrow> (json list \<times> jstring) option"
  and parse_members :: "nat \<Rightarrow> jstring \<Rightarrow> ((jstring \<times> json) list \<times> jstring) option"
where
  "parse_value 0 inp = None"
| "parse_value (Suc n) inp =
     (case inp of
        [] \<Rightarrow> None
      | c # cs \<Rightarrow>
          if c = 0x22 then map_option (\<lambda>(v, r). (JString v, r)) (parse_string_body cs)
          else if c = 0x5B then
            (case skip_ws cs of
               [] \<Rightarrow> None
             | d # ds \<Rightarrow>
                 if d = 0x5D then Some (JArray [], ds)
                 else map_option (\<lambda>(vs, r). (JArray vs, r)) (parse_elements n (d # ds)))
          else if c = 0x7B then
            (case skip_ws cs of
               [] \<Rightarrow> None
             | d # ds \<Rightarrow>
                 if d = 0x7D then Some (JObject [], ds)
                 else map_option (\<lambda>(ms, r). (JObject ms, r)) (parse_members n (d # ds)))
          else if c = 0x74 then map_option (\<lambda>r. (JBool True, r)) (literal ''true'' inp)
          else if c = 0x66 then map_option (\<lambda>r. (JBool False, r)) (literal ''false'' inp)
          else if c = 0x6E then map_option (\<lambda>r. (JNull, r)) (literal ''null'' inp)
          else map_option (\<lambda>(l, r). (JNumber l, r)) (lex_number inp))"
| "parse_elements 0 inp = None"
| "parse_elements (Suc n) inp =
     (case parse_value n inp of
        None \<Rightarrow> None
      | Some (v, r) \<Rightarrow>
          (case skip_ws r of
             [] \<Rightarrow> None
           | c # cs \<Rightarrow>
               if c = 0x2C then
                 map_option (\<lambda>(vs, r'). (v # vs, r')) (parse_elements n (skip_ws cs))
               else if c = 0x5D then Some ([v], cs)
               else None))"
| "parse_members 0 inp = None"
| "parse_members (Suc n) inp =
     (case inp of
        [] \<Rightarrow> None
      | q # qs \<Rightarrow>
          if q \<noteq> 0x22 then None
          else (case parse_string_body qs of
            None \<Rightarrow> None
          | Some (k, r0) \<Rightarrow>
              (case skip_ws r0 of
                 [] \<Rightarrow> None
               | colon # r1 \<Rightarrow>
                   if colon \<noteq> 0x3A then None
                   else (case parse_value n (skip_ws r1) of
                     None \<Rightarrow> None
                   | Some (v, r) \<Rightarrow>
                       (case skip_ws r of
                          [] \<Rightarrow> None
                        | c # cs \<Rightarrow>
                            if c = 0x2C then
                              map_option (\<lambda>(ms, r'). ((k, v) # ms, r'))
                                (parse_members n (skip_ws cs))
                            else if c = 0x7D then Some ([(k, v)], cs)
                            else None)))))"

definition JSON_parse :: "jstring \<Rightarrow> json option" where
  "JSON_parse txt =
     (case parse_value (Suc (length txt)) (skip_ws txt) of
        None \<Rightarrow> None
      | Some (v, r) \<Rightarrow> if skip_ws r = [] then Some v else None)"

subsection \<open>Buffer.from(string) and toString('base64')\<close>

text \<open>
  \<open>Buffer.from(s)\<close> encodes the string in UTF-8: a surrogate pair is one code point of
  four bytes, a lone surrogate becomes U+FFFD.
\<close>

definition utf8_of_code_point :: "nat \<Rightarrow> buffer" where
  "utf8_of_code_point n =
     (if n < 0x80 then [of_nat n]
      else if n < 0x800 then [of_nat (0xC0 + n div 64), of_nat (0x80 + n mod 64)]
      else if n < 0x10000 then
        [of_nat (0xE0 + n div 4096), of_nat (0x80 + n div 64 mod 64), of_nat (0x80 + n mod 64)]
      else
        [of_nat (0xF0 + n div 262144), of_nat (0x80 + n div 4096 mod 64),
         of_nat (0x80 + n div 64 mod 64), of_nat (0x80 + n mod 64)])"

fun Buffer_from :: "jstring \<Rightarrow> buffer" where
  "Buffer_from [] = []"
| "Buffer_from [c] =
     (if is_lead c \<or> is_trail c then utf8_of_code_point 0xFFFD
      else utf8_of_code_point (unat c))"
| "Buffer_from (c # d # ds) =
     (if is_lead c \<and> is_trail d then
        utf8_of_code_point (0x10000 + (unat c - 0xD800) * 1024 + (unat d - 0xDC00))
          @ Buffer_from ds
      else if is_lead c \<or> is_trail c then utf8_of_code_point 0xFFFD @ Buffer_from (d # ds)
      else utf8_of_code_point (unat c) @ Buffer_from (d # ds))"

definition base64_digit :: "nat \<Rightarrow> 16 word" where
  "base64_digit n =
     js ''ABCDEFGHIJKLMNOPQRSTUVWXYZabcdefghijklmnopqrstuvwxyz0123456789+/'' ! (n mod 64)"

fun toString_base64 :: "buffer \<Rightarrow> jstring" where
  "toString_base64 [] = []"
| "toString_base64 [a] =
     [base64_digit (unat a div 4), base64_digit (unat a mod 4 * 16), 0x3D, 0x3D]"
| "toString_base64 [a, b] =
     [base64_digit (unat a div 4), base64_digit (unat a mod 4 * 16 + unat b div 16),
      base64_digit (unat b mod 16 * 4), 0x3D]"
| "toString_base64 (a # b # c # r) =
     [base64_digit (unat a div 4), base64_digit (unat a mod 4 * 16 + unat b div 16),
      base64_digit (unat b mod 16 * 4 + unat c div 64), base64_digit (unat c mod 64)]
       @ toString_base64 r"

section \<open>The database (src/database.ts)\<close>

text \<open>
  The three tables of \<open>initDatabase\<close>. A table is the list of its rows in insertion
  order; no statement of the program deletes a row, so the \<open>AUTOINCREMENT\<close> key \<open>id\<close>
  of a row is its position in the list, counted from 1. A nullable \<open>TEXT\<close> column
  is an option; \<open>status\<close> holds only the two texts the program writes, and \<open>used\<close>
  only 0 and 1. A \<open>TEXT\<close> column is taken to give back the string that was written
  to it.

  Points in time are milliseconds since the epoch. The program stores and compares them
  as the text \<open>toISOString\<close> gives, and SQLite compares texts byte by byte. Up to the
  end of the year 9999 the text is \<open>YYYY-MM-DDTHH:mm:ss.sssZ\<close>; from the year 10000
  on (instant 253402300800000) it is \<open>+YYYYYY-MM-DDTHH:mm:ss.sssZ\<close>. Each form has
  a fixed width, so two texts of the same form are ordered as their instants are; a text
  of the second form begins with \<open>+\<close>, which sorts below every digit, so it is
  smaller than every text of the first form.
\<close>

definition year_10000 :: nat where
  "year_10000 = 253402300800000"

text \<open>\<open>x_text > n_text\<close> in SQL, for the texts of the instants \<open>x\<close> and \<open>n\<close>.\<close>

definition iso_text_greater :: "nat \<Rightarrow> nat \<Rightarrow> bool" where
  "iso_text_greater x n =
     (if x < year_10000 \<and> year_10000 \<le> n then True
      else if year_10000 \<le> x \<and> n < year_10000 then False
      else n < x)"

datatype agent_status = PENDING_VALIDATION | ACTIVE

record agent =
  agentId :: jstring
  ansName :: jstring
  agentDisplayName :: jstring
  agentDescription :: "jstring option"
  version :: jstring
  agentHost :: jstring
  status :: agent_status
  endpoints :: "jstring option"
  identityCsrPEM :: "jstring option"
  identityCertPEM :: "jstring option"
  createdAt :: nat
  updatedAt :: nat

record validation_challenge =
  ch_agentId :: jstring
  token :: jstring
  expiresAt :: nat
  used :: bool

record log_entry =
  eventType :: jstring
  log_agentId :: jstring
  log_ansName :: jstring
  data :: jstring
  merkleHash :: jstring
  timestamp :: nat

record store =
  agents :: "agent list"
  validation_challenges :: "validation_challenge list"
  transparency_log :: "log_entry list"

definition empty_store :: store where
  "empty_store = \<lparr>agents = [], validation_challenges = [], transparency_log = []\<rparr>"

subsection \<open>The SQL statements the routes issue\<close>

text \<open>\<open>SELECT * FROM agents WHERE ansName = ?\<close> (first row)\<close>

definition select_agent_by_ansName :: "store \<Rightarrow> jstring \<Rightarrow> agent option" where
  "select_agent_by_ansName s n = find (\<lambda>a. ansName a = n) (agents s)"

text \<open>\<open>SELECT * FROM agents WHERE agentId = ?\<close> (first row)\<close>

definition select_agent_by_agentId :: "store \<Rightarrow> jstring \<Rightarrow> agent option" where
  "select_agent_by_agentId s i = find (\<lambda>a. agentId a = i) (agents s)"

text \<open>
  \<open>INSERT INTO agents\<close>: the columns \<open>agentId\<close> and \<open>ansName\<close> are \<open>UNIQUE\<close>; the
  statement is rejected (\<open>None\<close>) when the new row repeats one of them.
\<close>

definition insert_agent :: "store \<Rightarrow> agent \<Rightarrow> store option" where
  "insert_agent s a =
     (if (\<exists>b \<in> set (agents s). agentId b = agentId a \<or> ansName b = ansName a) then None
      else Some (s\<lparr>agents := agents s @ [a]\<rparr>))"

text \<open>
  \<open>INSERT INTO validation_challenges\<close>. The foreign key on \<open>agentId\<close> is declared but
  the program never turns foreign-key enforcement on, so the insertion is unconditional.
\<close>

definition insert_challenge :: "store \<Rightarrow> validation_challenge \<Rightarrow> store" where
  "insert_challenge s c = s\<lparr>validation_challenges := validation_challenges s @ [c]\<rparr>"

text \<open>
  \<open>SELECT * FROM validation_challenges WHERE agentId = ? AND used = 0 AND expiresAt > ?\<close>:
  the first such row, with its \<open>id\<close>.
\<close>

definition select_challenge ::
  "store \<Rightarrow> jstring \<Rightarrow> nat \<Rightarrow> (nat \<times> validation_challenge) option" where
  "select_challenge s i now =
     find (\<lambda>(k, c). ch_agentId c = i \<and> \<not> used c \<and> iso_text_greater (expiresAt c) now)
       (enumerate 1 (validation_challenges s))"

text \<open>\<open>UPDATE agents SET status = 'ACTIVE', identityCertPEM = ?, updatedAt = ? WHERE agentId = ?\<close>\<close>

definition update_agent_active :: "store \<Rightarrow> jstring \<Rightarrow> jstring \<Rightarrow> nat \<Rightarrow> store" where
  "update_agent_active s i cert now =
     s\<lparr>agents :=
         map (\<lambda>a. if agentId a = i
                   then a\<lparr>status := ACTIVE, identityCertPEM := Some cert, updatedAt := now\<rparr>
                   else a) (agents s)\<rparr>"

text \<open>\<open>UPDATE validation_challenges SET used = 1 WHERE id = ?\<close>\<close>

definition mark_challenge_used :: "store \<Rightarrow> nat \<Rightarrow> store" where
  "mark_challenge_used s k =
     s\<lparr>validation_challenges :=
         map (\<lambda>(j, c). if j = k then c\<lparr>used := True\<rparr> else c)
           (enumerate 1 (validation_challenges s))\<rparr>"

text \<open>\<open>INSERT INTO transparency_log\<close>\<close>

definition insert_log :: "store \<Rightarrow> log_entry \<Rightarrow> store" where
  "insert_log s e = s\<lparr>transparency_log := transparency_log s @ [e]\<rparr>"

section \<open>What a request takes from outside the program\<close>

text \<open>
  Everything a request handler reads that is not the database:
  \<^item> \<open>clock k\<close>: the k-th reading of the wall clock during the request;
  \<^item> \<open>uuidv4\<close>: the identifier \<open>uuidv4()\<close> returns;
  \<^item> \<open>entropy\<close>: the bytes \<open>randomBytes\<close> draws;
  \<^item> \<open>db_rejects k\<close>: whether the k-th database call of the request (counted from 0)
    rejects its promise;
  \<^item> \<open>openssl_x509 csr host\<close>: the certificate \<open>openssl x509 -req\<close> writes for the
    request and host, or \<open>None\<close> when the command or the file access fails;
  \<^item> \<open>root_ca_crt\<close>: the content of the root certificate file, or \<open>None\<close> when it
    cannot be read;
  \<^item> \<open>dns_txt name\<close>: the TXT records published at a DNS name.
\<close>

record env =
  clock :: "nat \<Rightarrow> nat"
  uuidv4 :: jstring
  entropy :: "nat \<Rightarrow> 8 word"
  db_rejects :: "nat \<Rightarrow> bool"
  openssl_x509 :: "jstring \<Rightarrow> jstring \<Rightarrow> jstring option"
  root_ca_crt :: "jstring option"
  dns_txt :: "jstring \<Rightarrow> jstring list"

definition randomBytes :: "env \<Rightarrow> nat \<Rightarrow> buffer" where
  "randomBytes e n = map (entropy e) [0..<n]"

section \<open>The certificate authority (src/ca.ts)\<close>

text \<open>
  \<open>issueIdentityCertificate\<close> writes the request to a file, runs \<open>openssl\<close> and
  reads the certificate back; any failure throws. A \<open>NULL\<close> request cannot be written.
  The parameter \<open>ansName\<close> is not used by the source.
\<close>

definition issueIdentityCertificate ::
  "env \<Rightarrow> jstring option \<Rightarrow> jstring \<Rightarrow> jstring \<Rightarrow> jstring option" where
  "issueIdentityCertificate e csrPem ans host =
     (case csrPem of None \<Rightarrow> None | Some csr \<Rightarrow> openssl_x509 e csr host)"

definition getCACertificate :: "env \<Rightarrow> jstring option" where
  "getCACertificate e = root_ca_crt e"

text \<open>
  \<open>getCAFingerprint\<close>: the first 64 characters of the base64 text of the certificate
  file, after the prefix \<open>SHA256:\<close>.
\<close>

definition getCAFingerprint :: "env \<Rightarrow> jstring option" where
  "getCAFingerprint e =
     (case root_ca_crt e of
        None \<Rightarrow> None
      | Some cert \<Rightarrow> Some (js ''SHA256:'' @ take 64 (toString_base64 (Buffer_from cert))))"

section \<open>The routes (routes.ts)\<close>

text \<open>
  A handler takes the outside world of the request, the request and the database, and
  returns the response with the database it leaves. The responses that are not 2xx:
\<close>

datatype error =
    MissingRequiredFields
  | AgentAlreadyExists jstring
  | AgentNotFound
  | AgentAlreadyValidated
  | NoValidChallenge
  | DnsValidationFailed
  | InternalServerError

fun http_status :: "error \<Rightarrow> nat" where
  "http_status MissingRequiredFields = 400"
| "http_status (AgentAlreadyExists n) = 409"
| "http_status AgentNotFound = 404"
| "http_status AgentAlreadyValidated = 400"
| "http_status NoValidChallenge = 400"
| "http_status DnsValidationFailed = 400"
| "http_status InternalServerError = 500"

subsection \<open>POST /v1/agents/register\<close>

text \<open>The body of the request; a field that is absent is \<open>None\<close>.\<close>

record register_request =
  req_agentDisplayName :: "jstring option"
  req_agentDescription :: "jstring option"
  req_version :: "jstring option"
  req_agentHost :: "jstring option"
  req_endpoints :: "jstring list option"
  req_identityCsrPEM :: "jstring option"

record dns_record =
  rr_name :: jstring
  rr_type :: jstring
  rr_value :: jstring
  rr_ttl :: nat

record register_reply =
  reg_agentId :: jstring
  reg_ansName :: jstring
  reg_status :: agent_status
  reg_validationMethod :: jstring
  reg_dnsRecord :: dns_record
  reg_expiresAt :: nat

text \<open>\<open>!x\<close> for a string or \<open>undefined\<close>\<close>

definition falsy :: "jstring option \<Rightarrow> bool" where
  "falsy x = (case x of None \<Rightarrow> True | Some v \<Rightarrow> v = [])"

definition make_ansName :: "jstring \<Rightarrow> jstring \<Rightarrow> jstring" where
  "make_ansName ver host = js ''ans://v'' @ ver @ js ''.'' @ host"

text \<open>The rows the two \<open>INSERT\<close> statements of the route write.\<close>

definition new_agent_row ::
  "env \<Rightarrow> register_request \<Rightarrow> jstring \<Rightarrow> jstring \<Rightarrow> jstring \<Rightarrow> jstring \<Rightarrow> agent" where
  "new_agent_row e req dn ver host csr =
     \<lparr>agentId = uuidv4 e, ansName = make_ansName ver host, agentDisplayName = dn,
      agentDescription = req_agentDescription req, version = ver,
      agentHost = host, status = PENDING_VALIDATION,
      endpoints = Some (JSON_stringify_strings
                         (case req_endpoints req of None \<Rightarrow> [] | Some es \<Rightarrow> es)),
      identityCsrPEM = Some csr, identityCertPEM = None,
      createdAt = clock e 1, updatedAt = clock e 1\<rparr>"

definition new_challenge_row :: "env \<Rightarrow> validation_challenge" where
  "new_challenge_row e =
     \<lparr>ch_agentId = uuidv4 e, token = toString_hex (randomBytes e 16),
      expiresAt = clock e 0 + 3600000, used = False\<rparr>"

text \<open>
  The database calls are numbered 0 (lookup by name), 1 (agent insertion), 2 (challenge
  insertion).
\<close>

definition register ::
  "env \<Rightarrow> register_request \<Rightarrow> store \<Rightarrow> (error + register_reply) \<times> store" where
  "register e req s =
     (case (req_agentDisplayName req, req_version req, req_agentHost req, req_identityCsrPEM req) of
        (Some dn, Some ver, Some host, Some csr) \<Rightarrow>
          if falsy (Some dn) \<or> falsy (Some ver) \<or> falsy (Some host) \<or> falsy (Some csr)
          then (Inl MissingRequiredFields, s)
          else
            let aid = uuidv4 e;
                an = make_ansName ver host
            in if db_rejects e 0 then (Inl InternalServerError, s)
            else (case select_agent_by_ansName s an of
              Some existing \<Rightarrow> (Inl (AgentAlreadyExists an), s)
            | None \<Rightarrow>
                let tok = toString_hex (randomBytes e 16);
                    exp = clock e 0 + 3600000
                in if db_rejects e 1 then (Inl InternalServerError, s)
                else (case insert_agent s (new_agent_row e req dn ver host csr) of
                  None \<Rightarrow> (Inl InternalServerError, s)
                | Some s1 \<Rightarrow>
                    if db_rejects e 2 then (Inl InternalServerError, s1)
                    else
                      (Inr \<lparr>reg_agentId = aid, reg_ansName = an,
                            reg_status = PENDING_VALIDATION,
                            reg_validationMethod = js ''DNS-01'',
                            reg_dnsRecord =
                              \<lparr>rr_name = js ''_ans-challenge.'' @ host, rr_type = js ''TXT'',
                               rr_value = tok, rr_ttl = 300\<rparr>,
                            reg_expiresAt = exp\<rparr>,
                       insert_challenge s1 (new_challenge_row e))))
      | _ \<Rightarrow> (Inl MissingRequiredFields, s))"

subsection \<open>POST /v1/agents/:agentId/verify-dns\<close>

record verify_reply =
  ver_agentId :: jstring
  ver_ansName :: jstring
  ver_status :: agent_status
  ver_identityCert :: jstring
  ver_caCert :: jstring

text \<open>The row the route appends to the transparency log.\<close>

definition new_log_row :: "env \<Rightarrow> jstring \<Rightarrow> agent \<Rightarrow> log_entry" where
  "new_log_row e aid ag =
     \<lparr>eventType = js ''AGENT_REGISTERED'', log_agentId = aid, log_ansName = ansName ag,
      data = JSON_stringify_displayName (agentDisplayName ag),
      merkleHash = toString_hex (randomBytes e 32), timestamp = clock e 2\<rparr>"

text \<open>
  The database calls are numbered 0 (agent lookup), 1 (challenge lookup), 2 (agent
  update), 3 (challenge update), 4 (log insertion). The source sets \<open>dnsValidated\<close> to
  the constant \<open>true\<close> and reads no DNS record.
\<close>

definition verify_dns ::
  "env \<Rightarrow> jstring \<Rightarrow> store \<Rightarrow> (error + verify_reply) \<times> store" where
  "verify_dns e aid s =
     (if db_rejects e 0 then (Inl InternalServerError, s)
      else case select_agent_by_agentId s aid of
        None \<Rightarrow> (Inl AgentNotFound, s)
      | Some ag \<Rightarrow>
          if status ag \<noteq> PENDING_VALIDATION then (Inl AgentAlreadyValidated, s)
          else if db_rejects e 1 then (Inl InternalServerError, s)
          else (case select_challenge s aid (clock e 0) of
            None \<Rightarrow> (Inl NoValidChallenge, s)
          | Some (cid, challenge) \<Rightarrow>
              let dnsValidated = True
              in if \<not> dnsValidated then (Inl DnsValidationFailed, s)
              else (case issueIdentityCertificate e (identityCsrPEM ag) (ansName ag) (agentHost ag) of
                None \<Rightarrow> (Inl InternalServerError, s)
              | Some cert \<Rightarrow>
                  if db_rejects e 2 then (Inl InternalServerError, s)
                  else
                    let s1 = update_agent_active s aid cert (clock e 1)
                    in if db_rejects e 3 then (Inl InternalServerError, s1)
                    else
                      let s2 = mark_challenge_used s1 cid
                      in if db_rejects e 4 then (Inl InternalServerError, s2)
                      else
                        let s3 = insert_log s2 (new_log_row e aid ag)
                        in (case getCACertificate e of
                          None \<Rightarrow> (Inl InternalServerError, s3)
                        | Some ca \<Rightarrow>
                            (Inr \<lparr>ver_agentId = aid, ver_ansName = ansName ag,
                                  ver_status = ACTIVE, ver_identityCert = cert,
                                  ver_caCert = ca\<rparr>, s3)))))"

subsection \<open>GET /v1/log/checkpoint\<close>

record checkpoint_reply =
  treeSize :: nat
  rootHash :: jstring
  cp_timestamp :: nat

text \<open>
  \<open>SELECT COUNT(*)\<close> and \<open>SELECT merkleHash, timestamp ... ORDER BY id DESC LIMIT 1\<close>;
  \<open>x || d\<close> takes \<open>d\<close> when \<open>x\<close> is missing, zero or the empty string.
\<close>

definition checkpoint :: "env \<Rightarrow> store \<Rightarrow> (error + checkpoint_reply) \<times> store" where
  "checkpoint e s =
     (if db_rejects e 0 then (Inl InternalServerError, s)
      else
        let result = length (transparency_log s)
        in if db_rejects e 1 then (Inl InternalServerError, s)
        else
          let lastEntry = (case rev (transparency_log s) of [] \<Rightarrow> None | x # xs \<Rightarrow> Some x)
          in (Inr \<lparr>treeSize = result,
                   rootHash = (case lastEntry of
                                 None \<Rightarrow> zero_hash
                               | Some le \<Rightarrow> if merkleHash le = [] then zero_hash else merkleHash le),
                   cp_timestamp = (case lastEntry of None \<Rightarrow> clock e 0 | Some le \<Rightarrow> timestamp le)\<rparr>,
              s))"

subsection \<open>GET /v1/agents/:agentId\<close>

record agent_reply =
  got_agentId :: jstring
  got_ansName :: jstring
  got_agentDisplayName :: jstring
  got_agentDescription :: "jstring option"
  got_version :: jstring
  got_agentHost :: jstring
  got_status :: agent_status
  got_endpoints :: json
  got_identityCertPEM :: "jstring option"
  got_createdAt :: nat
  got_updatedAt :: nat

definition get_agent :: "env \<Rightarrow> jstring \<Rightarrow> store \<Rightarrow> (error + agent_reply) \<times> store" where
  "get_agent e aid s =
     (if db_rejects e 0 then (Inl InternalServerError, s)
      else case select_agent_by_agentId s aid of
        None \<Rightarrow> (Inl AgentNotFound, s)
      | Some ag \<Rightarrow>
          (case JSON_parse (case endpoints ag of None \<Rightarrow> js ''[]''
                            | Some t \<Rightarrow> if t = [] then js ''[]'' else t) of
             None \<Rightarrow> (Inl InternalServerError, s)
           | Some eps \<Rightarrow>
               (Inr \<lparr>got_agentId = agentId ag, got_ansName = ansName ag,
                     got_agentDisplayName = agentDisplayName ag,
                     got_agentDescription = agentDescription ag,
                     got_version = version ag, got_agentHost = agentHost ag,
                     got_status = status ag, got_endpoints = eps,
                     got_identityCertPEM = identityCertPEM ag,
                     got_createdAt = createdAt ag, got_updatedAt = updatedAt ag\<rparr>, s)))"

section \<open>Histories of requests\<close>

text \<open>
  The requests that reach the database. The search route only reads and is left out.
  \<open>handle\<close> gives the database a request leaves, \<open>run\<close> the one a sequence of
  requests leaves, each with its own outside world.
\<close>

datatype request =
    Register register_request
  | VerifyDns jstring
  | GetAgent jstring
  | Checkpoint

fun handle :: "env \<Rightarrow> request \<Rightarrow> store \<Rightarrow> store" where
  "handle e (Register req) s = snd (register e req s)"
| "handle e (VerifyDns aid) s = snd (verify_dns e aid s)"
| "handle e (GetAgent aid) s = snd (get_agent e aid s)"
| "handle e Checkpoint s = snd (checkpoint e s)"

fun run :: "(env \<times> request) list \<Rightarrow> store \<Rightarrow> store" where
  "run [] s = s"
| "run ((e, r) # tr) s = run tr (handle e r s)"

section \<open>Properties of a database\<close>

text \<open>A certificate is stored for exactly the agents that are active.\<close>

definition cert_iff_active :: "store \<Rightarrow> bool" where
  "cert_iff_active s =
     (\<forall>a \<in> set (agents s). (identityCertPEM a \<noteq> None) = (status a = ACTIVE))"

text \<open>
  The row \<open>SELECT * FROM agents WHERE agentId = ?\<close> returns is active; the challenge
  with a given \<open>id\<close> is marked used.
\<close>

definition agent_active :: "store \<Rightarrow> jstring \<Rightarrow> bool" where
  "agent_active s aid = (\<exists>ag. select_agent_by_agentId s aid = Some ag \<and> status ag = ACTIVE)"

definition challenge_used :: "store \<Rightarrow> nat \<Rightarrow> bool" where
  "challenge_used s k = (\<exists>c. (k, c) \<in> set (enumerate 1 (validation_challenges s)) \<and> used c)"

text \<open>Every entry of the log has a hash that is not the empty string.\<close>

definition hashes_present :: "store \<Rightarrow> bool" where
  "hashes_present s = (\<forall>x \<in> set (transparency_log s). merkleHash x \<noteq> [])"

text \<open>
  The content of a log entry (every column but the hash), and the hash an entry
  appended to a log would chain from: that of the last entry, or the all-zero value.
\<close>

definition entry_content :: "log_entry \<Rightarrow> jstring \<times> jstring \<times> jstring \<times> jstring \<times> nat" where
  "entry_content x = (eventType x, log_agentId x, log_ansName x, data x, timestamp x)"

definition previous_hash :: "log_entry list \<Rightarrow> jstring" where
  "previous_hash l = (case rev l of [] \<Rightarrow> zero_hash | x # xs \<Rightarrow> merkleHash x)"

section \<open>A history used in the examples\<close>

text \<open>
  The agent \<open>Bot\<close>, version 1 on \<open>bot.example.com\<close>, registered and then verified at
  a time when no TXT record is published anywhere and no database call fails. The text
  \<open>CSR\<close> stands for a well-formed certificate request, which the \<open>openssl\<close> of the
  example signs.
\<close>

definition bot_env :: env where
  "bot_env =
     \<lparr>clock = (\<lambda>k. 1000 + k), uuidv4 = js ''a1'', entropy = (\<lambda>i. 0x2A),
      db_rejects = (\<lambda>k. False), openssl_x509 = (\<lambda>csr host. Some (js ''CERT '' @ host)),
      root_ca_crt = Some (js ''ROOT''), dns_txt = (\<lambda>n. [])\<rparr>"

definition bot_request :: register_request where
  "bot_request =
     \<lparr>req_agentDisplayName = Some (js ''Bot''), req_agentDescription = None,
      req_version = Some (js ''1''), req_agentHost = Some (js ''bot.example.com''),
      req_endpoints = Some [js ''https://bot.example.com/a''],
      req_identityCsrPEM = Some (js ''CSR'')\<rparr>"

definition bot_agent :: agent where
  "bot_agent =
     new_agent_row bot_env bot_request (js ''Bot'') (js ''1'') (js ''bot.example.com'') (js ''CSR'')"

definition bot_pending :: store where
  "bot_pending =
     \<lparr>agents = [bot_agent], validation_challenges = [new_challenge_row bot_env],
      transparency_log = []\<rparr>"

definition bot_active :: store where
  "bot_active =
     \<lparr>agents = [bot_agent\<lparr>status := ACTIVE,
                            identityCertPEM := Some (js ''CERT bot.example.com''),
                            updatedAt := 1001\<rparr>],
      validation_challenges = [new_challenge_row bot_env\<lparr>used := True\<rparr>],
      transparency_log = [new_log_row bot_env (js ''a1'') bot_agent]\<rparr>"

definition bot_history :: "(env \<times> request) list" where
  "bot_history = [(bot_env, Register bot_request), (bot_env, VerifyDns (js ''a1''))]"

text \<open>
  The outside world of the example when the verification comes only after the challenge
  has expired, when other random bytes are drawn, and when the k-th database call of
  the request is rejected.
\<close>

definition late_env :: env where
  "late_env = bot_env\<lparr>clock := (\<lambda>k. 3601000 + k)\<rparr>"

text \<open>The same, with the verification at the first instant of the year 10000.\<close>

definition year_10000_env :: env where
  "year_10000_env = bot_env\<lparr>clock := (\<lambda>k. 253402300800000 + k)\<rparr>"

definition other_draw_env :: env where
  "other_draw_env = bot_env\<lparr>entropy := (\<lambda>i. 0x2B)\<rparr>"

definition failing_env :: "nat \<Rightarrow> env" where
  "failing_env k = bot_env\<lparr>db_rejects := (\<lambda>j. j = k)\<rparr>"

text \<open>
  Two root certificate files with the same first 48 characters (the PEM header line and
  the first twenty characters of the base64 body) and different continuations.
\<close>

definition pem_head :: jstring where
  "pem_head = js ''-----BEGIN CERTIFICATE-----'' @ [0x0A] @ js ''MIIFazCCA1OgAwIBAgIU''"

definition root_a_env :: env where
  "root_a_env = bot_env\<lparr>root_ca_crt := Some (pem_head @ js ''AAAA'')\<rparr>"

definition root_b_env :: env where
  "root_b_env = bot_env\<lparr>root_ca_crt := Some (pem_head @ js ''BBBB'')\<rparr>"

section \<open>What each statement and each route does to the tables\<close>

lemmas model_defs = register_def verify_dns_def get_agent_def checkpoint_def
  select_agent_by_ansName_def select_agent_by_agentId_def insert_agent_def insert_challenge_def
  select_challenge_def iso_text_greater_def year_10000_def
  update_agent_active_def mark_challenge_used_def insert_log_def
  new_agent_row_def new_challenge_row_def new_log_row_def issueIdentityCertificate_def
  getCACertificate_def make_ansName_def falsy_def empty_store_def Let_def

lemmas bot_defs = bot_env_def bot_request_def bot_agent_def bot_pending_def bot_active_def

lemma snd_get_agent [simp]: "snd (get_agent e aid s) = s"
  by (simp add: get_agent_def split: option.splits)

lemma snd_checkpoint [simp]: "snd (checkpoint e s) = s"
  by (simp add: checkpoint_def Let_def)

lemma agents_insert_challenge [simp]: "agents (insert_challenge s c) = agents s"
  by (simp add: insert_challenge_def)

lemma agents_mark_challenge_used [simp]: "agents (mark_challenge_used s k) = agents s"
  by (simp add: mark_challenge_used_def)

lemma agents_insert_log [simp]: "agents (insert_log s x) = agents s"
  by (simp add: insert_log_def)

lemma log_insert_challenge [simp]:
  "transparency_log (insert_challenge s c) = transparency_log s"
  by (simp add: insert_challenge_def)

lemma log_mark_challenge_used [simp]:
  "transparency_log (mark_challenge_used s k) = transparency_log s"
  by (simp add: mark_challenge_used_def)

lemma log_update_agent_active [simp]:
  "transparency_log (update_agent_active s i c t) = transparency_log s"
  by (simp add: update_agent_active_def)

lemma log_insert_log [simp]: "transparency_log (insert_log s x) = transparency_log s @ [x]"
  by (simp add: insert_log_def)

lemma chs_update_agent_active [simp]:
  "validation_challenges (update_agent_active s i c t) = validation_challenges s"
  by (simp add: update_agent_active_def)

lemma chs_insert_log [simp]: "validation_challenges (insert_log s x) = validation_challenges s"
  by (simp add: insert_log_def)

lemma chs_insert_challenge [simp]:
  "validation_challenges (insert_challenge s c) = validation_challenges s @ [c]"
  by (simp add: insert_challenge_def)

text \<open>The database a verification leaves: untouched, or one, two or all three writes.\<close>

lemma verify_dns_cases:
  "snd (verify_dns e aid s) = s \<or>
   (\<exists>ag cid ch cert.
      select_agent_by_agentId s aid = Some ag \<and> status ag = PENDING_VALIDATION \<and>
      select_challenge s aid (clock e 0) = Some (cid, ch) \<and>
      issueIdentityCertificate e (identityCsrPEM ag) (ansName ag) (agentHost ag) = Some cert \<and>
      (snd (verify_dns e aid s) = update_agent_active s aid cert (clock e 1) \<or>
       snd (verify_dns e aid s) =
         mark_challenge_used (update_agent_active s aid cert (clock e 1)) cid \<or>
       snd (verify_dns e aid s) =
         insert_log (mark_challenge_used (update_agent_active s aid cert (clock e 1)) cid)
           (new_log_row e aid ag)))"
  by (auto simp: verify_dns_def Let_def split: option.splits if_splits prod.splits)

lemma verify_dns_Inr:
  assumes "fst (verify_dns e aid s) = Inr r"
  shows "\<exists>ag cid ch cert.
      select_agent_by_agentId s aid = Some ag \<and> status ag = PENDING_VALIDATION \<and>
      select_challenge s aid (clock e 0) = Some (cid, ch) \<and>
      issueIdentityCertificate e (identityCsrPEM ag) (ansName ag) (agentHost ag) = Some cert \<and>
      snd (verify_dns e aid s) =
         insert_log (mark_challenge_used (update_agent_active s aid cert (clock e 1)) cid)
           (new_log_row e aid ag)"
  using assms
  by (auto simp: verify_dns_def Let_def split: option.splits if_splits prod.splits)

text \<open>The database a registration leaves: untouched, or with the agent, or with both rows.\<close>

lemma register_cases:
  "snd (register e req s) = s \<or>
   (\<exists>dn ver host csr.
      insert_agent s (new_agent_row e req dn ver host csr) =
        Some (s\<lparr>agents := agents s @ [new_agent_row e req dn ver host csr]\<rparr>) \<and>
      (snd (register e req s) = s\<lparr>agents := agents s @ [new_agent_row e req dn ver host csr]\<rparr> \<or>
       snd (register e req s) =
         insert_challenge (s\<lparr>agents := agents s @ [new_agent_row e req dn ver host csr]\<rparr>)
           (new_challenge_row e)))"
proof (cases "snd (register e req s) = s")
  case False
  then obtain dn ver host csr where rq:
    "req_agentDisplayName req = Some dn" "req_version req = Some ver"
    "req_agentHost req = Some host" "req_identityCsrPEM req = Some csr"
    by (auto simp: register_def split: option.splits)
  show ?thesis
    apply (rule disjI2, rule exI [of _ dn], rule exI [of _ ver],
           rule exI [of _ host], rule exI [of _ csr])
    using False
    apply (simp add: register_def rq Let_def insert_agent_def split: option.splits if_splits)
    done
qed simp

subsection \<open>The example history\<close>

lemma register_bot: "register bot_env bot_request empty_store =
   (Inr \<lparr>reg_agentId = js ''a1'', reg_ansName = js ''ans://v1.bot.example.com'',
          reg_status = PENDING_VALIDATION, reg_validationMethod = js ''DNS-01'',
          reg_dnsRecord = \<lparr>rr_name = js ''_ans-challenge.bot.example.com'', rr_type = js ''TXT'',
                           rr_value = toString_hex (replicate 16 0x2A), rr_ttl = 300\<rparr>,
          reg_expiresAt = 3601000\<rparr>, bot_pending)"
  by (simp add: model_defs bot_defs js_def randomBytes_def map_replicate_const)

lemma verify_bot: "verify_dns bot_env (js ''a1'') bot_pending =
   (Inr \<lparr>ver_agentId = js ''a1'', ver_ansName = js ''ans://v1.bot.example.com'',
          ver_status = ACTIVE, ver_identityCert = js ''CERT bot.example.com'',
          ver_caCert = js ''ROOT''\<rparr>, bot_active)"
  by (simp add: model_defs bot_defs js_def enumerate_simps)

lemma run_bot_history: "run bot_history empty_store = bot_active"
  by (simp add: bot_history_def register_bot verify_bot)

section \<open>Certificates and status\<close>

lemma cert_iff_active_update:
  "cert_iff_active s \<Longrightarrow> cert_iff_active (update_agent_active s aid cert t)"
  by (auto simp: cert_iff_active_def update_agent_active_def)

lemma cert_iff_active_other_tables [simp]:
  "cert_iff_active (mark_challenge_used s k) = cert_iff_active s"
  "cert_iff_active (insert_log s x) = cert_iff_active s"
  "cert_iff_active (insert_challenge s c) = cert_iff_active s"
  by (simp_all add: cert_iff_active_def)

lemma cert_iff_active_handle: "cert_iff_active s \<Longrightarrow> cert_iff_active (handle e r s)"
proof (cases r)
  case (Register req)
  assume inv: "cert_iff_active s"
  from register_cases [of e req s] inv show ?thesis
    unfolding Register handle.simps
    by (auto simp: cert_iff_active_def new_agent_row_def)
next
  case (VerifyDns aid)
  assume inv: "cert_iff_active s"
  from verify_dns_cases [of e aid s] show ?thesis
    unfolding VerifyDns handle.simps
    using inv cert_iff_active_update [OF inv]
    by auto
qed simp_all

lemma cert_iff_active_run: "cert_iff_active s \<Longrightarrow> cert_iff_active (run tr s)"
  by (induction tr arbitrary: s) (auto simp: cert_iff_active_handle)

text \<open>
  C4. After any history of requests from the empty database, however the requests
  ended (also when a database call or the signing failed in the middle of one, which
  leaves the database as it is between two statements of a route), every agent row has
  a certificate if and only if its status is \<open>ACTIVE\<close>.
\<close>

theorem cert_present_iff_active:
  "\<forall>a \<in> set (agents (run tr empty_store)).
     (identityCertPEM a \<noteq> None) = (status a = ACTIVE)"
proof -
  have "cert_iff_active empty_store"
    by (simp add: cert_iff_active_def empty_store_def)
  then have "cert_iff_active (run tr empty_store)"
    by (rule cert_iff_active_run)
  then show ?thesis
    by (simp add: cert_iff_active_def)
qed

theorem cert_present_iff_active_witness:
  "status (hd (agents (run bot_history empty_store))) = ACTIVE \<and>
   identityCertPEM (hd (agents (run bot_history empty_store))) \<noteq> None"
proof -
  have mem: "hd (agents (run bot_history empty_store)) \<in> set (agents (run bot_history empty_store))"
    by (simp add: run_bot_history bot_active_def)
  have act: "status (hd (agents (run bot_history empty_store))) = ACTIVE"
    by (simp add: run_bot_history bot_active_def)
  from cert_present_iff_active [of bot_history] mem
  have "(identityCertPEM (hd (agents (run bot_history empty_store))) \<noteq> None) =
        (status (hd (agents (run bot_history empty_store))) = ACTIVE)"
    by (rule bspec)
  with act show ?thesis by simp
qed

section \<open>Registering a name twice\<close>

lemma register_Inr_agent:
  assumes "fst (register e req s) = Inr r"
  shows "\<exists>ver host. req_version req = Some ver \<and> req_agentHost req = Some host \<and>
           (\<exists>a \<in> set (agents (snd (register e req s))). ansName a = make_ansName ver host)"
  using assms
  by (auto simp: register_def Let_def insert_agent_def new_agent_row_def
           split: option.splits if_splits)

text \<open>
  C5. In every database that holds an agent with the name computed from the version
  and host of a registration request, the request leaves the database as it was: no
  agent row and no challenge row is written. When the request has its four required
  fields and the lookup by name does not fail, the response is the conflict (409).
\<close>

theorem duplicate_registration_conflict:
  assumes "\<exists>a \<in> set (agents s). ansName a = make_ansName ver host"
    and "req_version req = Some ver" and "req_agentHost req = Some host"
  shows "snd (register e req s) = s \<and>
         (\<not> falsy (req_agentDisplayName req) \<and> \<not> falsy (req_version req) \<and>
          \<not> falsy (req_agentHost req) \<and> \<not> falsy (req_identityCsrPEM req) \<and>
          \<not> db_rejects e 0 \<longrightarrow>
          fst (register e req s) = Inl (AgentAlreadyExists (make_ansName ver host)))"
proof -
  from assms(1) obtain a where "select_agent_by_ansName s (make_ansName ver host) = Some a"
    by (cases "select_agent_by_ansName s (make_ansName ver host)")
       (auto simp: select_agent_by_ansName_def find_None_iff)
  then show ?thesis
    using assms(2,3)
    by (auto simp: register_def Let_def falsy_def split: option.splits)
qed

theorem duplicate_registration_conflict_witness:
  "register bot_env bot_request (snd (register bot_env bot_request empty_store)) =
     (Inl (AgentAlreadyExists (js ''ans://v1.bot.example.com'')),
      snd (register bot_env bot_request empty_store))"
proof -
  have st: "snd (register bot_env bot_request empty_store) = bot_pending"
    by (simp add: register_bot)
  have ex: "\<exists>a \<in> set (agents bot_pending).
              ansName a = make_ansName (js ''1'') (js ''bot.example.com'')"
    by (simp add: bot_defs new_agent_row_def)
  have v: "req_version bot_request = Some (js ''1'')"
    and h: "req_agentHost bot_request = Some (js ''bot.example.com'')"
    by (simp_all add: bot_request_def)
  have ok: "\<not> falsy (req_agentDisplayName bot_request) \<and> \<not> falsy (req_version bot_request) \<and>
          \<not> falsy (req_agentHost bot_request) \<and> \<not> falsy (req_identityCsrPEM bot_request) \<and>
          \<not> db_rejects bot_env 0"
    by (simp add: bot_request_def bot_env_def falsy_def js_def)
  have nm: "make_ansName (js ''1'') (js ''bot.example.com'') = js ''ans://v1.bot.example.com''"
    by (simp add: make_ansName_def js_def)
  from duplicate_registration_conflict [OF ex v h, of bot_env] ok
  show ?thesis
    unfolding st by (simp add: nm prod_eq_iff)
qed

section \<open>Verifying once\<close>

lemma find_append_Some: "find P xs = Some x \<Longrightarrow> find P (xs @ ys) = Some x"
  by (induction xs) (auto split: if_splits)

lemma select_after_update:
  "select_agent_by_agentId (update_agent_active s j cert t) i =
     map_option (\<lambda>a. if agentId a = j
                       then a\<lparr>status := ACTIVE, identityCertPEM := Some cert, updatedAt := t\<rparr>
                       else a)
       (select_agent_by_agentId s i)"
proof -
  have "find (\<lambda>a. agentId a = i)
          (map (\<lambda>a. if agentId a = j
                     then a\<lparr>status := ACTIVE, identityCertPEM := Some cert, updatedAt := t\<rparr>
                     else a) xs) =
        map_option (\<lambda>a. if agentId a = j
                       then a\<lparr>status := ACTIVE, identityCertPEM := Some cert, updatedAt := t\<rparr>
                       else a) (find (\<lambda>a. agentId a = i) xs)" for xs
    by (induction xs) auto
  then show ?thesis
    by (simp add: select_agent_by_agentId_def update_agent_active_def)
qed

lemma select_other_tables [simp]:
  "select_agent_by_agentId (mark_challenge_used s k) i = select_agent_by_agentId s i"
  "select_agent_by_agentId (insert_log s x) i = select_agent_by_agentId s i"
  "select_agent_by_agentId (insert_challenge s c) i = select_agent_by_agentId s i"
  by (simp_all add: select_agent_by_agentId_def)

lemma select_after_append:
  "select_agent_by_agentId s i = Some ag \<Longrightarrow>
   select_agent_by_agentId (s\<lparr>agents := agents s @ [a]\<rparr>) i = Some ag"
  by (simp add: select_agent_by_agentId_def find_append_Some)

lemma agent_active_other_tables [simp]:
  "agent_active (mark_challenge_used s k) i = agent_active s i"
  "agent_active (insert_log s x) i = agent_active s i"
  "agent_active (insert_challenge s c) i = agent_active s i"
  by (simp_all add: agent_active_def)

lemma agent_active_update:
  "agent_active s i \<Longrightarrow> agent_active (update_agent_active s j cert t) i"
proof -
  assume "agent_active s i"
  then obtain ag where "select_agent_by_agentId s i = Some ag" "status ag = ACTIVE"
    by (auto simp: agent_active_def)
  then show ?thesis
    by (cases "agentId ag = j") (simp_all add: agent_active_def select_after_update)
qed

lemma agent_active_append:
  "agent_active s i \<Longrightarrow> agent_active (s\<lparr>agents := agents s @ [a]\<rparr>) i"
  by (auto simp: agent_active_def dest: select_after_append)

lemma agent_active_handle: "agent_active s i \<Longrightarrow> agent_active (handle e r s) i"
proof (cases r)
  case (Register req)
  assume act: "agent_active s i"
  from register_cases [of e req s] show ?thesis
    unfolding Register handle.simps
    using act agent_active_append [OF act]
    by auto
next
  case (VerifyDns aid)
  assume act: "agent_active s i"
  from verify_dns_cases [of e aid s] show ?thesis
    unfolding VerifyDns handle.simps
    using act agent_active_update [OF act]
    by auto
qed simp_all

lemma agent_active_run: "agent_active s i \<Longrightarrow> agent_active (run tr s) i"
  by (induction tr arbitrary: s) (auto simp: agent_active_handle)

lemma agent_active_after_verify:
  assumes "fst (verify_dns e aid s) = Inr r"
  shows "agent_active (snd (verify_dns e aid s)) aid"
proof -
  from verify_dns_Inr [OF assms] obtain ag cid ch cert where
    sel: "select_agent_by_agentId s aid = Some ag" and
    st: "snd (verify_dns e aid s) =
         insert_log (mark_challenge_used (update_agent_active s aid cert (clock e 1)) cid)
           (new_log_row e aid ag)"
    by blast
  from sel have "agentId ag = aid"
    by (auto simp: select_agent_by_agentId_def find_Some_iff)
  with sel show ?thesis
    by (simp add: st agent_active_def select_after_update)
qed

lemma verify_dns_active:
  "agent_active s aid \<Longrightarrow> \<not> db_rejects e 0 \<Longrightarrow>
   verify_dns e aid s = (Inl AgentAlreadyValidated, s)"
  by (auto simp: agent_active_def verify_dns_def)

subsection \<open>Used challenges stay used\<close>

lemma enumerate_append_set:
  "set (enumerate n (xs @ ys)) = set (enumerate n xs) \<union> set (enumerate (n + length xs) ys)"
  by (simp add: enumerate_append_eq)

lemma challenge_used_other_tables [simp]:
  "challenge_used (update_agent_active s j cert t) k = challenge_used s k"
  "challenge_used (insert_log s x) k = challenge_used s k"
  by (simp_all add: challenge_used_def)

lemma challenge_used_agents [simp]:
  "challenge_used (s\<lparr>agents := as\<rparr>) k = challenge_used s k"
  by (simp add: challenge_used_def)

lemma challenge_used_insert:
  "challenge_used s k \<Longrightarrow> challenge_used (insert_challenge s c) k"
  by (auto simp: challenge_used_def enumerate_append_eq)

lemma challenge_used_mark:
  "challenge_used s k \<Longrightarrow> challenge_used (mark_challenge_used s j) k"
  by (auto simp: challenge_used_def mark_challenge_used_def in_set_enumerate_eq nth_enumerate_eq)

lemma challenge_used_marked:
  "(k, c) \<in> set (enumerate 1 (validation_challenges s)) \<Longrightarrow>
   challenge_used (mark_challenge_used s k) k"
  by (auto simp: challenge_used_def mark_challenge_used_def in_set_enumerate_eq nth_enumerate_eq)

lemma challenge_used_handle: "challenge_used s k \<Longrightarrow> challenge_used (handle e r s) k"
proof (cases r)
  case (Register req)
  assume u: "challenge_used s k"
  from register_cases [of e req s] show ?thesis
    unfolding Register handle.simps
    using u by (auto simp: challenge_used_insert)
next
  case (VerifyDns aid)
  assume u: "challenge_used s k"
  from verify_dns_cases [of e aid s] show ?thesis
    unfolding VerifyDns handle.simps
    using u by (auto simp: challenge_used_mark)
qed simp_all

lemma challenge_used_run: "challenge_used s k \<Longrightarrow> challenge_used (run tr s) k"
  by (induction tr arbitrary: s) (auto simp: challenge_used_handle)

lemma select_challenge_in_set:
  "select_challenge s i now = Some (k, c) \<Longrightarrow>
   (k, c) \<in> set (enumerate 1 (validation_challenges s)) \<and> ch_agentId c = i \<and> \<not> used c \<and>
   iso_text_greater (expiresAt c) now"
  by (auto simp: select_challenge_def find_Some_iff in_set_conv_nth)

lemma challenge_used_not_selected:
  "challenge_used s k \<Longrightarrow> select_challenge s i now \<noteq> Some (k, c)"
proof
  assume u: "challenge_used s k" and sel: "select_challenge s i now = Some (k, c)"
  from select_challenge_in_set [OF sel]
  have m: "(k, c) \<in> set (enumerate 1 (validation_challenges s))" and nu: "\<not> used c" by simp_all
  from u obtain c' where m': "(k, c') \<in> set (enumerate 1 (validation_challenges s))" and "used c'"
    by (auto simp: challenge_used_def)
  from m m' have "c = c'" by (auto simp: in_set_enumerate_eq)
  with nu \<open>used c'\<close> show False by simp
qed

lemma challenge_used_after_verify:
  assumes "fst (verify_dns e aid s) = Inr r" and "select_challenge s aid (clock e 0) = Some (cid, ch)"
  shows "challenge_used (snd (verify_dns e aid s)) cid"
proof -
  from verify_dns_Inr [OF assms(1)] assms(2) obtain ag cert where
    st: "snd (verify_dns e aid s) =
         insert_log (mark_challenge_used (update_agent_active s aid cert (clock e 1)) cid)
           (new_log_row e aid ag)"
    by auto
  from select_challenge_in_set [OF assms(2)]
  have "(cid, ch) \<in> set (enumerate 1 (validation_challenges (update_agent_active s aid cert (clock e 1))))"
    by simp
  then show ?thesis
    unfolding st by (simp add: challenge_used_marked)
qed

text \<open>
  C8. After a verification of an agent has succeeded (response 200), and after any
  further history of requests, every verification of that agent whose agent lookup is
  not rejected by the database answers "Agent already validated" (400) and leaves the
  database as it is; and the challenge row the successful verification consumed is never
  again returned by the challenge lookup, for any agent and at any time.
\<close>

theorem second_verification_rejected:
  assumes "fst (verify_dns e aid s) = Inr r" and "\<not> db_rejects e' 0"
  shows "verify_dns e' aid (run tr (snd (verify_dns e aid s))) =
           (Inl AgentAlreadyValidated, run tr (snd (verify_dns e aid s))) \<and>
         (\<forall>cid ch. select_challenge s aid (clock e 0) = Some (cid, ch) \<longrightarrow>
            (\<forall>i now c. select_challenge (run tr (snd (verify_dns e aid s))) i now \<noteq> Some (cid, c)))"
proof (intro conjI allI impI)
  from agent_active_after_verify [OF assms(1)]
  have "agent_active (run tr (snd (verify_dns e aid s))) aid"
    by (rule agent_active_run)
  then show "verify_dns e' aid (run tr (snd (verify_dns e aid s))) =
           (Inl AgentAlreadyValidated, run tr (snd (verify_dns e aid s)))"
    using assms(2) by (rule verify_dns_active)
next
  fix cid ch i now c
  assume "select_challenge s aid (clock e 0) = Some (cid, ch)"
  with assms(1) have "challenge_used (snd (verify_dns e aid s)) cid"
    by (rule challenge_used_after_verify)
  then have "challenge_used (run tr (snd (verify_dns e aid s))) cid"
    by (rule challenge_used_run)
  then show "select_challenge (run tr (snd (verify_dns e aid s))) i now \<noteq> Some (cid, c)"
    by (rule challenge_used_not_selected)
qed

theorem second_verification_rejected_witness:
  "verify_dns bot_env (js ''a1'')
     (run [(bot_env, GetAgent (js ''a1''))] (snd (verify_dns bot_env (js ''a1'') bot_pending))) =
     (Inl AgentAlreadyValidated, bot_active) \<and>
   select_challenge
     (run [(bot_env, GetAgent (js ''a1''))] (snd (verify_dns bot_env (js ''a1'') bot_pending)))
     (js ''a1'') 1000 \<noteq> Some (1, new_challenge_row bot_env)"
proof -
  have ok: "fst (verify_dns bot_env (js ''a1'') bot_pending) =
              Inr \<lparr>ver_agentId = js ''a1'', ver_ansName = js ''ans://v1.bot.example.com'',
                    ver_status = ACTIVE, ver_identityCert = js ''CERT bot.example.com'',
                    ver_caCert = js ''ROOT''\<rparr>"
    by (simp add: verify_bot)
  have nr: "\<not> db_rejects bot_env 0"
    by (simp add: bot_env_def)
  have sel: "select_challenge bot_pending (js ''a1'') (clock bot_env 0) =
               Some (1, new_challenge_row bot_env)"
    by (simp add: select_challenge_def iso_text_greater_def year_10000_def bot_defs
        new_challenge_row_def js_def enumerate_simps)
  from second_verification_rejected [OF ok nr, of "[(bot_env, GetAgent (js ''a1''))]"] sel
  show ?thesis
    by (simp add: verify_bot)
qed

section \<open>Expired and used challenges\<close>

text \<open>
  C9, as stated, fails. The only challenge of the verified example agent is used, and a
  verification answers "Agent already validated" (the status check comes first), not "No
  valid challenge found". And at the first instant of the year 10000 the challenge of the
  pending example agent, expired since the instant 3601000, is still selected: the
  verification answers 200 and the agent is \<open>ACTIVE\<close>.
\<close>

theorem expired_or_used_not_always_challenge_error:
  "map used (validation_challenges bot_active) = [True] \<and>
   verify_dns bot_env (js ''a1'') bot_active = (Inl AgentAlreadyValidated, bot_active) \<and>
   map expiresAt (validation_challenges bot_pending) = [3601000] \<and>
   clock year_10000_env 0 = 253402300800000 \<and>
   fst (verify_dns year_10000_env (js ''a1'') bot_pending) =
     Inr \<lparr>ver_agentId = js ''a1'', ver_ansName = js ''ans://v1.bot.example.com'',
           ver_status = ACTIVE, ver_identityCert = js ''CERT bot.example.com'',
           ver_caCert = js ''ROOT''\<rparr> \<and>
   map status (agents (snd (verify_dns year_10000_env (js ''a1'') bot_pending))) = [ACTIVE]"
  by (simp add: model_defs bot_defs year_10000_env_def js_def enumerate_simps)

text \<open>
  C9, amended. For a verification requested before the year 10000: when every challenge
  row of the agent is marked used or has \<open>expiresAt\<close> not later than the time of the
  request, the verification changes nothing in the database and does not answer 200,
  whatever TXT records are published. When the agent exists with status
  \<open>PENDING_VALIDATION\<close> and the two lookups are not rejected by the database, the
  answer is "No valid challenge found" (400); when the agent exists with another status
  and its lookup is not rejected, the answer is "Agent already validated" (400).
\<close>

theorem expired_or_used_challenge_rejected:
  assumes "clock e 0 < year_10000"
    and "\<forall>c \<in> set (validation_challenges s).
           ch_agentId c = aid \<longrightarrow> used c \<or> expiresAt c \<le> clock e 0"
  shows "snd (verify_dns e aid s) = s \<and> (\<forall>r. fst (verify_dns e aid s) \<noteq> Inr r) \<and>
         ((\<exists>ag. select_agent_by_agentId s aid = Some ag \<and> status ag = PENDING_VALIDATION) \<and>
          \<not> db_rejects e 0 \<and> \<not> db_rejects e 1 \<longrightarrow>
          fst (verify_dns e aid s) = Inl NoValidChallenge) \<and>
         ((\<exists>ag. select_agent_by_agentId s aid = Some ag \<and> status ag \<noteq> PENDING_VALIDATION) \<and>
          \<not> db_rejects e 0 \<longrightarrow>
          fst (verify_dns e aid s) = Inl AgentAlreadyValidated)"
proof -
  have "select_challenge s aid (clock e 0) = None"
  proof (cases "select_challenge s aid (clock e 0)")
    case (Some p)
    obtain k c where "p = (k, c)" by (cases p)
    with Some select_challenge_in_set [of s aid "clock e 0" k c]
    have sel: "(k, c) \<in> set (enumerate 1 (validation_challenges s))" "ch_agentId c = aid"
         "\<not> used c" "iso_text_greater (expiresAt c) (clock e 0)"
      by simp_all
    from sel(1) have "c \<in> set (validation_challenges s)"
      by (auto simp: in_set_enumerate_eq)
    with assms(2) sel(2,3) have "expiresAt c \<le> clock e 0"
      by blast
    with assms(1) sel(4) show ?thesis
      by (simp add: iso_text_greater_def split: if_splits)
  qed simp
  then show ?thesis
    by (auto simp: verify_dns_def split: option.splits)
qed

theorem expired_or_used_challenge_rejected_witness:
  "verify_dns late_env (js ''a1'') bot_pending = (Inl NoValidChallenge, bot_pending) \<and>
   verify_dns bot_env (js ''a1'') bot_active = (Inl AgentAlreadyValidated, bot_active)"
proof -
  have early: "clock late_env 0 < year_10000"
    by (simp add: late_env_def year_10000_def)
  have old: "\<forall>c \<in> set (validation_challenges bot_pending).
               ch_agentId c = js ''a1'' \<longrightarrow> used c \<or> expiresAt c \<le> clock late_env 0"
    by (simp add: bot_defs late_env_def new_challenge_row_def)
  have pend: "(\<exists>ag. select_agent_by_agentId bot_pending (js ''a1'') = Some ag \<and>
                   status ag = PENDING_VALIDATION) \<and>
              \<not> db_rejects late_env 0 \<and> \<not> db_rejects late_env 1"
    by (simp add: select_agent_by_agentId_def bot_defs late_env_def new_agent_row_def)
  have early': "clock bot_env 0 < year_10000"
    by (simp add: bot_env_def year_10000_def)
  have used: "\<forall>c \<in> set (validation_challenges bot_active).
               ch_agentId c = js ''a1'' \<longrightarrow> used c \<or> expiresAt c \<le> clock bot_env 0"
    by (simp add: bot_active_def)
  have act: "(\<exists>ag. select_agent_by_agentId bot_active (js ''a1'') = Some ag \<and>
                   status ag \<noteq> PENDING_VALIDATION) \<and>
             \<not> db_rejects bot_env 0"
    by (simp add: select_agent_by_agentId_def bot_defs new_agent_row_def)
  from expired_or_used_challenge_rejected [OF early old] pend
       expired_or_used_challenge_rejected [OF early' used] act
  show ?thesis
    by (simp add: prod_eq_iff)
qed

section \<open>The transparency log and its checkpoint\<close>

lemma length_toString_hex: "length (toString_hex buf) = 2 * length buf"
  by (induction buf) (simp_all add: toString_hex_def hex_byte_def)

lemma length_randomBytes: "length (randomBytes e n) = n"
  by (simp add: randomBytes_def)

lemma merkleHash_new_log_row: "length (merkleHash (new_log_row e aid ag)) = 64"
  by (simp add: new_log_row_def length_toString_hex length_randomBytes)

lemma handle_log:
  "transparency_log (handle e r s) = transparency_log s \<or>
   (\<exists>aid ag. transparency_log (handle e r s) = transparency_log s @ [new_log_row e aid ag])"
proof (cases r)
  case (Register req)
  from register_cases [of e req s] show ?thesis
    unfolding Register handle.simps by auto
next
  case (VerifyDns aid)
  from verify_dns_cases [of e aid s] show ?thesis
    unfolding VerifyDns handle.simps by (elim disjE exE conjE) (simp_all, blast)
qed simp_all

lemma run_append: "run (tr @ tr') s = run tr' (run tr s)"
  by (induction tr arbitrary: s) auto

lemma run_log_prefix: "\<exists>es. transparency_log (run tr s) = transparency_log s @ es"
proof (induction tr arbitrary: s)
  case Nil
  show ?case by simp
next
  case (Cons p tr)
  obtain e r where p: "p = (e, r)" by (cases p)
  from Cons [of "handle e r s"] obtain es where
    "transparency_log (run tr (handle e r s)) = transparency_log (handle e r s) @ es" ..
  with handle_log [of e r s] show ?case
    unfolding p by auto
qed

lemma hashes_present_handle: "hashes_present s \<Longrightarrow> hashes_present (handle e r s)"
proof -
  assume h: "hashes_present s"
  have "merkleHash (new_log_row e aid ag) \<noteq> []" for aid ag
    using merkleHash_new_log_row [of e aid ag] by auto
  with handle_log [of e r s] h show ?thesis
    by (auto simp: hashes_present_def)
qed

lemma hashes_present_run: "hashes_present s \<Longrightarrow> hashes_present (run tr s)"
  by (induction tr arbitrary: s) (auto simp: hashes_present_handle)

lemma checkpoint_value:
  assumes "hashes_present s" "\<not> db_rejects e 0" "\<not> db_rejects e 1"
  shows "\<exists>r. checkpoint e s = (Inr r, s) \<and> treeSize r = length (transparency_log s) \<and>
          rootHash r = (if transparency_log s = [] then zero_hash
                        else merkleHash (last (transparency_log s)))"
proof (cases "transparency_log s" rule: rev_cases)
  case Nil
  with assms show ?thesis by (simp add: checkpoint_def)
next
  case (snoc xs x)
  with assms(1) have "merkleHash x \<noteq> []" by (simp add: hashes_present_def)
  with snoc assms(2,3) show ?thesis by (simp add: checkpoint_def)
qed

text \<open>
  C7. After any history of requests from the empty database, a checkpoint request whose
  two database reads are not rejected answers with \<open>treeSize\<close> the number of entries
  in the log and \<open>rootHash\<close> the hash of the last entry, or sixty-four zeros when the
  log is empty. Further requests only append to the log: the log of the moment is an
  initial segment of every later log, so the count never decreases and equals the number
  of entries ever appended.
\<close>

theorem checkpoint_reports_log:
  assumes "\<not> db_rejects e 0" and "\<not> db_rejects e 1"
  shows "(\<exists>r. checkpoint e (run tr empty_store) = (Inr r, run tr empty_store) \<and>
           treeSize r = length (transparency_log (run tr empty_store)) \<and>
           rootHash r = (if transparency_log (run tr empty_store) = [] then zero_hash
                         else merkleHash (last (transparency_log (run tr empty_store))))) \<and>
         take (length (transparency_log (run tr empty_store)))
              (transparency_log (run (tr @ tr') empty_store)) =
           transparency_log (run tr empty_store) \<and>
         length (transparency_log (run tr empty_store)) \<le>
           length (transparency_log (run (tr @ tr') empty_store))"
proof -
  have "hashes_present empty_store"
    by (simp add: hashes_present_def empty_store_def)
  then have "hashes_present (run tr empty_store)"
    by (rule hashes_present_run)
  from checkpoint_value [OF this assms] run_log_prefix [of tr' "run tr empty_store"]
  show ?thesis
    by (auto simp: run_append)
qed

theorem checkpoint_reports_log_witness:
  "fst (checkpoint bot_env (run bot_history empty_store)) =
     Inr \<lparr>treeSize = 1, rootHash = toString_hex (replicate 32 0x2A), cp_timestamp = 1002\<rparr>"
proof -
  have nr: "\<not> db_rejects bot_env 0" "\<not> db_rejects bot_env 1"
    by (simp_all add: bot_env_def)
  from checkpoint_reports_log [OF nr, of bot_history "[]"]
  obtain r where r: "checkpoint bot_env (run bot_history empty_store) = (Inr r, run bot_history empty_store)"
    and t: "treeSize r = length (transparency_log (run bot_history empty_store))"
    and h: "rootHash r = (if transparency_log (run bot_history empty_store) = [] then zero_hash
                         else merkleHash (last (transparency_log (run bot_history empty_store))))"
    by blast
  have ts: "cp_timestamp r = 1002"
    using r by (auto simp: run_bot_history checkpoint_def bot_active_def bot_env_def new_log_row_def)
  have "r = \<lparr>treeSize = 1, rootHash = toString_hex (replicate 32 0x2A), cp_timestamp = 1002\<rparr>"
    using t h ts
    by (simp add: run_bot_history bot_active_def new_log_row_def bot_env_def randomBytes_def
        map_replicate_const)
  with r show ?thesis by simp
qed

lemma verify_other_draw: "snd (verify_dns other_draw_env (js ''a1'') bot_pending) =
   bot_active\<lparr>transparency_log := [new_log_row other_draw_env (js ''a1'') bot_agent]\<rparr>"
  by (simp add: model_defs bot_defs other_draw_env_def js_def enumerate_simps)

lemma toString_hex_replicate_32:
  "toString_hex (replicate 32 b) = hex_byte b @ toString_hex (replicate 31 b)"
proof -
  have "replicate 32 b = b # replicate 31 b"
    using replicate_Suc [of 31 b] by simp
  then show ?thesis
    by (simp add: toString_hex_def)
qed

lemma draws_differ:
  "toString_hex (randomBytes bot_env 32) \<noteq> toString_hex (randomBytes other_draw_env 32)"
proof -
  have a: "randomBytes bot_env 32 = replicate 32 0x2A"
    by (simp add: randomBytes_def bot_env_def map_replicate_const)
  have b: "randomBytes other_draw_env 32 = replicate 32 0x2B"
    by (simp add: randomBytes_def other_draw_env_def bot_env_def map_replicate_const)
  have "hex_byte 0x2A \<noteq> hex_byte 0x2B"
    by (simp add: hex_byte_def hex_digit_def js_def)
  moreover have "length (hex_byte 0x2A) = length (hex_byte 0x2B)"
    by (simp add: hex_byte_def)
  ultimately show ?thesis
    unfolding a b toString_hex_replicate_32 by simp
qed

text \<open>
  C1, as stated, fails: two verifications of the same agent in the same database, at
  the same time, that differ only in the random bytes drawn, append entries with the
  same content after the same previous hash, and the stored hashes differ.
\<close>

theorem log_hash_not_function_of_chain:
  "previous_hash (butlast (transparency_log (snd (verify_dns bot_env (js ''a1'') bot_pending)))) =
   previous_hash (butlast (transparency_log (snd (verify_dns other_draw_env (js ''a1'') bot_pending)))) \<and>
   entry_content (last (transparency_log (snd (verify_dns bot_env (js ''a1'') bot_pending)))) =
   entry_content (last (transparency_log (snd (verify_dns other_draw_env (js ''a1'') bot_pending)))) \<and>
   merkleHash (last (transparency_log (snd (verify_dns bot_env (js ''a1'') bot_pending)))) \<noteq>
   merkleHash (last (transparency_log (snd (verify_dns other_draw_env (js ''a1'') bot_pending))))"
  unfolding verify_bot verify_other_draw snd_conv
  by (simp add: bot_active_def new_log_row_def entry_content_def draws_differ)
     (simp add: other_draw_env_def bot_env_def)

text \<open>
  C1, amended. A successful verification appends exactly one entry, whose stored hash
  is the hexadecimal text (64 characters) of the 32 random bytes drawn by the request;
  the log the verification leaves is an initial segment of the log after any further
  history, so a stored hash never changes.
\<close>

theorem appended_hash_is_random_draw:
  assumes "fst (verify_dns e aid s) = Inr r"
  shows "(\<exists>x. transparency_log (snd (verify_dns e aid s)) = transparency_log s @ [x] \<and>
              merkleHash x = toString_hex (randomBytes e 32) \<and> length (merkleHash x) = 64) \<and>
         take (length (transparency_log (snd (verify_dns e aid s))))
              (transparency_log (run tr (snd (verify_dns e aid s)))) =
           transparency_log (snd (verify_dns e aid s))"
proof -
  from verify_dns_Inr [OF assms] obtain ag cid cert where
    "snd (verify_dns e aid s) =
       insert_log (mark_challenge_used (update_agent_active s aid cert (clock e 1)) cid)
         (new_log_row e aid ag)"
    by blast
  then have "transparency_log (snd (verify_dns e aid s)) = transparency_log s @ [new_log_row e aid ag]"
    by simp
  moreover have "merkleHash (new_log_row e aid ag) = toString_hex (randomBytes e 32)"
    by (simp add: new_log_row_def)
  moreover note merkleHash_new_log_row [of e aid ag]
    run_log_prefix [of tr "snd (verify_dns e aid s)"]
  ultimately show ?thesis
    by auto
qed

theorem appended_hash_is_random_draw_witness:
  "transparency_log (snd (verify_dns bot_env (js ''a1'') bot_pending)) \<noteq> [] \<and>
   merkleHash (last (transparency_log (snd (verify_dns bot_env (js ''a1'') bot_pending)))) =
     toString_hex (randomBytes bot_env 32)"
proof -
  have ok: "fst (verify_dns bot_env (js ''a1'') bot_pending) =
              Inr \<lparr>ver_agentId = js ''a1'', ver_ansName = js ''ans://v1.bot.example.com'',
                    ver_status = ACTIVE, ver_identityCert = js ''CERT bot.example.com'',
                    ver_caCert = js ''ROOT''\<rparr>"
    by (simp add: verify_bot)
  from appended_hash_is_random_draw [OF ok, of "[]"]
  show ?thesis
    by auto
qed

section \<open>The writes of a verification\<close>

text \<open>
  C3, as stated, fails: when the database rejects the statement that marks the
  challenge used, the request ends in an error (500) with the agent already
  \<open>ACTIVE\<close>, the challenge unused and no log entry.
\<close>

theorem verification_not_atomic:
  "fst (verify_dns (failing_env 3) (js ''a1'') bot_pending) = Inl InternalServerError \<and>
   map status (agents (snd (verify_dns (failing_env 3) (js ''a1'') bot_pending))) = [ACTIVE] \<and>
   map used (validation_challenges (snd (verify_dns (failing_env 3) (js ''a1'') bot_pending))) = [False] \<and>
   transparency_log (snd (verify_dns (failing_env 3) (js ''a1'') bot_pending)) = []"
  by (simp add: model_defs bot_defs failing_env_def js_def enumerate_simps)

text \<open>
  C3, amended. When the error occurs before the first write has been done (one of the
  two lookups or the agent update itself is rejected, the response is an error other
  than 500, or the signing fails), the database is unchanged: the agent is still
  \<open>PENDING_VALIDATION\<close> and its challenge unconsumed.
\<close>

theorem failure_before_first_write:
  assumes "db_rejects e 0 \<or> db_rejects e 1 \<or> db_rejects e 2 \<or>
           (\<exists>err. fst (verify_dns e aid s) = Inl err \<and> err \<noteq> InternalServerError) \<or>
           (\<forall>ag. select_agent_by_agentId s aid = Some ag \<longrightarrow>
              issueIdentityCertificate e (identityCsrPEM ag) (ansName ag) (agentHost ag) = None)"
  shows "snd (verify_dns e aid s) = s"
  using assms
  by (auto simp: verify_dns_def Let_def split: option.splits if_splits prod.splits)

theorem failure_before_first_write_witness:
  "verify_dns (failing_env 2) (js ''a1'') bot_pending = (Inl InternalServerError, bot_pending)"
proof -
  have f: "db_rejects (failing_env 2) 0 \<or> db_rejects (failing_env 2) 1 \<or> db_rejects (failing_env 2) 2 \<or>
           (\<exists>err. fst (verify_dns (failing_env 2) (js ''a1'') bot_pending) = Inl err \<and>
                  err \<noteq> InternalServerError) \<or>
           (\<forall>ag. select_agent_by_agentId bot_pending (js ''a1'') = Some ag \<longrightarrow>
              issueIdentityCertificate (failing_env 2) (identityCsrPEM ag) (ansName ag)
                (agentHost ag) = None)"
    by (simp add: failing_env_def)
  have r: "fst (verify_dns (failing_env 2) (js ''a1'') bot_pending) = Inl InternalServerError"
    by (simp add: model_defs bot_defs failing_env_def js_def enumerate_simps)
  from failure_before_first_write [OF f] r
  show ?thesis
    by (simp add: prod_eq_iff)
qed

section \<open>Verification and the DNS\<close>

text \<open>The route reads nothing of the DNS: its result is the same whatever is published.\<close>

lemma verify_dns_ignores_dns: "verify_dns (e\<lparr>dns_txt := d\<rparr>) aid s = verify_dns e aid s"
  by (simp add: verify_dns_def issueIdentityCertificate_def getCACertificate_def
      new_log_row_def randomBytes_def
      cong: option.case_cong prod.case_cong if_cong)

text \<open>
  C2 at the example: no TXT record is published at \<open>_ans-challenge.bot.example.com\<close>,
  the agent is pending and the log empty; the verification answers 200, the agent is
  \<open>ACTIVE\<close> and the log has one entry.
\<close>

theorem verification_without_txt_record:
  "dns_txt bot_env (js ''_ans-challenge.bot.example.com'') = [] \<and>
   map status (agents bot_pending) = [PENDING_VALIDATION] \<and>
   transparency_log bot_pending = [] \<and>
   fst (verify_dns bot_env (js ''a1'') bot_pending) =
     Inr \<lparr>ver_agentId = js ''a1'', ver_ansName = js ''ans://v1.bot.example.com'',
           ver_status = ACTIVE, ver_identityCert = js ''CERT bot.example.com'',
           ver_caCert = js ''ROOT''\<rparr> \<and>
   map status (agents (snd (verify_dns bot_env (js ''a1'') bot_pending))) = [ACTIVE] \<and>
   length (transparency_log (snd (verify_dns bot_env (js ''a1'') bot_pending))) = 1"
  unfolding verify_bot snd_conv fst_conv
  by (simp add: bot_active_def bot_pending_def bot_agent_def new_agent_row_def
      bot_env_def)

section \<open>The fingerprint of the root certificate\<close>

lemma fingerprint_root_a: "getCAFingerprint root_a_env =
   Some (js ''SHA256:LS0tLS1CRUdJTiBDRVJUSUZJQ0FURS0tLS0tCk1JSUZhekNDQTFPZ0F3SUJBZ0lV'')"
  by (simp add: getCAFingerprint_def root_a_env_def bot_env_def pem_head_def js_def
      is_lead_def is_trail_def utf8_of_code_point_def base64_digit_def)

lemma fingerprint_root_b: "getCAFingerprint root_b_env =
   Some (js ''SHA256:LS0tLS1CRUdJTiBDRVJUSUZJQ0FURS0tLS0tCk1JSUZhekNDQTFPZ0F3SUJBZ0lV'')"
  by (simp add: getCAFingerprint_def root_b_env_def bot_env_def pem_head_def js_def
      is_lead_def is_trail_def utf8_of_code_point_def base64_digit_def)

text \<open>
  C6, as stated, fails: two root certificate files that differ get the same
  fingerprint, the base64 text of their common first 48 characters.
\<close>

theorem fingerprint_collision:
  "root_ca_crt root_a_env \<noteq> root_ca_crt root_b_env \<and>
   getCAFingerprint root_a_env = getCAFingerprint root_b_env"
  unfolding fingerprint_root_a fingerprint_root_b
  by (simp add: root_a_env_def root_b_env_def js_def)

lemma base64_prefix:
  "take (4 * n) (toString_base64 bs) = take (4 * n) (toString_base64 (take (3 * n) bs))"
proof (induction n arbitrary: bs)
  case 0
  show ?case by simp
next
  case (Suc n)
  show ?case
  proof (cases bs rule: toString_base64.cases)
    case (4 a b c r)
    have four: "4 * Suc n = Suc (Suc (Suc (Suc (4 * n))))"
      and three: "3 * Suc n = Suc (Suc (Suc (3 * n)))"
      by simp_all
    from Suc [of r] show ?thesis
      unfolding 4 four three by simp
  qed simp_all
qed

lemma base64_first_64:
  "take 64 (toString_base64 bs) = take 64 (toString_base64 (take 48 bs))"
  using base64_prefix [of 16 bs] by simp

text \<open>
  C6, amended. The fingerprint is the text \<open>SHA256:\<close> followed by the first 64
  characters of the base64 text of the first 48 bytes of the certificate file; it is a
  function of the file, so the same root certificate always has the same fingerprint.
\<close>

theorem fingerprint_is_truncated_encoding:
  "getCAFingerprint e =
     map_option (\<lambda>cert. js ''SHA256:'' @ take 64 (toString_base64 (take 48 (Buffer_from cert))))
       (root_ca_crt e) \<and>
   (root_ca_crt e = root_ca_crt e' \<longrightarrow> getCAFingerprint e = getCAFingerprint e')"
  by (cases "root_ca_crt e") (simp_all add: getCAFingerprint_def base64_first_64 [symmetric])

theorem fingerprint_is_truncated_encoding_witness:
  "getCAFingerprint root_a_env = getCAFingerprint (root_a_env\<lparr>uuidv4 := js ''b2''\<rparr>)"
proof -
  have same: "root_ca_crt root_a_env = root_ca_crt (root_a_env\<lparr>uuidv4 := js ''b2''\<rparr>)"
    by simp
  from fingerprint_is_truncated_encoding [of root_a_env "root_a_env\<lparr>uuidv4 := js ''b2''\<rparr>"] same
  show ?thesis
    by blast
qed

section \<open>JSON.parse reads back what JSON.stringify writes\<close>

lemma less_16_cases:
  "(m::nat) < 16 \<Longrightarrow> m = 0 \<or> m = 1 \<or> m = 2 \<or> m = 3 \<or> m = 4 \<or> m = 5 \<or> m = 6 \<or> m = 7 \<or>
     m = 8 \<or> m = 9 \<or> m = 10 \<or> m = 11 \<or> m = 12 \<or> m = 13 \<or> m = 14 \<or> m = 15"
  by arith

lemma hex_value_hex_digit: "hex_value (hex_digit n) = Some (n mod 16)"
proof -
  have "n mod 16 < 16" by simp
  from less_16_cases [OF this] show ?thesis
    by (elim disjE) (simp_all add: hex_digit_def hex_value_def js_def)
qed

lemma four_nibbles:
  assumes "(n::nat) < 65536"
  shows "n div 4096 mod 16 * 4096 + n div 256 mod 16 * 256 + n div 16 mod 16 * 16 + n mod 16 = n"
proof -
  have e1: "n div 256 = n div 16 div 16" and e2: "n div 4096 = n div 16 div 16 div 16"
    by (simp_all add: div_mult2_eq [symmetric])
  have a: "n = n div 16 * 16 + n mod 16" by simp
  have b: "n div 16 = n div 16 div 16 * 16 + n div 16 mod 16" by simp
  have c: "n div 16 div 16 = n div 16 div 16 div 16 * 16 + n div 16 div 16 mod 16" by simp
  have d: "n div 16 div 16 div 16 mod 16 = n div 16 div 16 div 16"
    using assms by (simp add: e2 [symmetric])
  show ?thesis
    unfolding e1 e2 using a b c d by linarith
qed

lemma hex4_unicode_escape:
  "hex4 (hex_digit (unat c div 4096)) (hex_digit (unat c div 256))
        (hex_digit (unat c div 16)) (hex_digit (unat c)) = Some (c :: 16 word)"
proof -
  have "unat c < 65536"
    using unsigned_less [of c, where 'a = nat] by simp
  from four_nibbles [OF this]
  have n: "unat c div 4096 mod 16 * 4096 + unat c div 256 mod 16 * 256 +
           unat c div 16 mod 16 * 16 + unat c mod 16 = unat c" .
  have "hex4 (hex_digit (unat c div 4096)) (hex_digit (unat c div 256))
          (hex_digit (unat c div 16)) (hex_digit (unat c)) =
        Some (of_nat (unat c div 4096 mod 16 * 4096 + unat c div 256 mod 16 * 256 +
                      unat c div 16 mod 16 * 16 + unat c mod 16))"
    unfolding hex4_def hex_value_hex_digit by (simp only: prod.case option.case)
  also have "\<dots> = Some c"
    unfolding n by simp
  finally show ?thesis .
qed

lemma parse_unicode_escape:
  "parse_string_body (unicode_escape c @ rest) =
     map_option (\<lambda>(v, t). (c # v, t)) (parse_string_body rest)"
  by (simp add: unicode_escape_def hex4_unicode_escape)

lemma trail_plain: "is_trail d \<Longrightarrow> d \<noteq> 0x22 \<and> d \<noteq> 0x5C \<and> \<not> d < 0x20"
  by (auto simp: is_trail_def word_le_nat_alt word_less_nat_alt)

lemma lead_plain:
  "is_lead c \<Longrightarrow> c \<noteq> 0x22 \<and> c \<noteq> 0x5C \<and> \<not> c < 0x20 \<and> c \<noteq> 0x08 \<and> c \<noteq> 0x09 \<and>
          c \<noteq> 0x0A \<and> c \<noteq> 0x0C \<and> c \<noteq> 0x0D"
  by (auto simp: is_lead_def word_le_nat_alt word_less_nat_alt)

lemma parse_quote_single:
  "parse_string_body (quote_body [c] @ rest) =
     map_option (\<lambda>(v, t). (c # v, t)) (parse_string_body rest)"
  by (simp add: parse_unicode_escape del: parse_string_body.simps) simp

lemma quote_body_step:
  "\<not> (is_lead c \<and> is_trail d) \<Longrightarrow>
   quote_body (c # d # ds) = quote_body [c] @ quote_body (d # ds)"
  by auto

lemma quote_body_pair:
  "is_lead c \<Longrightarrow> is_trail d \<Longrightarrow> quote_body (c # d # ds) = c # d # quote_body ds"
  using lead_plain [of c] by simp


lemma parse_quote_body: "parse_string_body (quote_body v @ 0x22 # rest) = Some (v, rest)"
proof (induction "length v" arbitrary: v rule: less_induct)
  case less
  show ?case
  proof (cases v)
    case Nil
    then show ?thesis by simp
  next
    case (Cons c w)
    note v = Cons
    show ?thesis
    proof (cases w)
      case Nil
      have "parse_string_body (quote_body [c] @ 0x22 # rest) = Some ([c], rest)"
        unfolding parse_quote_single by simp
      with v Nil show ?thesis by simp
    next
      case (Cons d ds)
      show ?thesis
      proof (cases "is_lead c \<and> is_trail d")
        case True
        from less [of ds] v Cons
        have ih: "parse_string_body (quote_body ds @ 0x22 # rest) = Some (ds, rest)"
          by simp
        from True have q: "quote_body (c # d # ds) = c # d # quote_body ds"
          by (simp only: quote_body_pair)
        from True lead_plain [of c] trail_plain [of d] show ?thesis
          unfolding v Cons q by (simp add: ih)
      next
        case False
        from less [of "d # ds"] v Cons
        have ih: "parse_string_body (quote_body (d # ds) @ 0x22 # rest) = Some (d # ds, rest)"
          by simp
        from False have q: "quote_body (c # d # ds) = quote_body [c] @ quote_body (d # ds)"
          by (rule quote_body_step)
        show ?thesis
          unfolding v Cons q append_assoc parse_quote_single ih by simp
      qed
    qed
  qed
qed

lemma parse_value_quoted:
  "parse_value (Suc n) (QuoteJSONString v @ rest) = Some (JString v, rest)"
  by (simp add: QuoteJSONString_def parse_quote_body del: parse_string_body.simps)

lemma join_comma_quoted_hd:
  "E \<noteq> [] \<Longrightarrow> \<exists>t. join_comma (map QuoteJSONString E) = 0x22 # t"
proof (cases E)
  case (Cons x xs)
  then show ?thesis by (cases xs) (simp_all add: QuoteJSONString_def)
qed simp

lemma skip_ws_quote [simp]: "skip_ws (0x22 # t) = 0x22 # t"
  by (simp add: skip_ws_def is_ws_def)

lemma skip_ws_comma [simp]: "skip_ws (0x2C # t) = 0x2C # t"
  by (simp add: skip_ws_def is_ws_def)

lemma skip_ws_bracket [simp]: "skip_ws (0x5D # t) = 0x5D # t"
  by (simp add: skip_ws_def is_ws_def)

lemma skip_ws_Nil [simp]: "skip_ws [] = []"
  by (simp add: skip_ws_def)

lemma skip_ws_join:
  assumes "E \<noteq> []"
  shows "skip_ws (join_comma (map QuoteJSONString E) @ r) = join_comma (map QuoteJSONString E) @ r"
proof -
  from join_comma_quoted_hd [OF assms] obtain t where
    "join_comma (map QuoteJSONString E) = 0x22 # t" ..
  then show ?thesis by simp
qed

lemma parse_elements_strings:
  "E \<noteq> [] \<Longrightarrow>
   parse_elements (Suc (length E) + k) (join_comma (map QuoteJSONString E) @ 0x5D # rest) =
     Some (map JString E, rest)"
proof (induction E)
  case Nil
  then show ?case by simp
next
  case (Cons x xs)
  show ?case
  proof (cases xs)
    case Nil
    then show ?thesis
      by (simp add: parse_value_quoted del: parse_value.simps)
  next
    case (Cons y ys)
    have nonempty: "xs \<noteq> []" using Cons by simp
    from Cons.IH [OF nonempty] have ih:
      "parse_elements (Suc (length xs + k)) (join_comma (map QuoteJSONString xs) @ 0x5D # rest) =
         Some (map JString xs, rest)"
      by (simp del: parse_elements.simps)
    have j: "join_comma (map QuoteJSONString (x # xs)) =
             QuoteJSONString x @ 0x2C # join_comma (map QuoteJSONString xs)"
      using Cons by simp
    have "parse_elements (Suc (Suc (length xs) + k))
            (QuoteJSONString x @ 0x2C # join_comma (map QuoteJSONString xs) @ 0x5D # rest) =
          Some (JString x # map JString xs, rest)"
      by (subst parse_elements.simps)
         (simp add: parse_value_quoted skip_ws_join [OF nonempty] ih
               del: parse_value.simps parse_elements.simps)
    then show ?thesis
      unfolding j by simp
  qed
qed

lemma length_join_comma_quoted: "length E \<le> length (join_comma (map QuoteJSONString E))"
  by (induction E rule: join_comma.induct) (simp_all add: QuoteJSONString_def)

lemma JSON_parse_stringify_strings:
  "JSON_parse (JSON_stringify_strings E) = Some (JArray (map JString E))"
proof (cases "E = []")
  case True
  then show ?thesis
    by (simp add: JSON_parse_def JSON_stringify_strings_def skip_ws_def is_ws_def)
next
  case False
  from join_comma_quoted_hd [OF False] obtain t where
    t: "join_comma (map QuoteJSONString E) = 0x22 # t" ..
  define n where "n = length (join_comma (map QuoteJSONString E))"
  obtain k where k: "Suc (Suc n) = Suc (length E) + k"
    using length_join_comma_quoted [of E] unfolding n_def
    by (metis add_Suc le_Suc_ex le_SucI)
  have pe: "parse_elements (Suc (Suc n)) (0x22 # t @ [0x5D]) = Some (map JString E, [])"
    using parse_elements_strings [OF False, of k "[]"] unfolding k t by simp
  have len: "length (JSON_stringify_strings E) = Suc (Suc n)"
    by (simp add: JSON_stringify_strings_def n_def)
  have shape: "JSON_stringify_strings E = 0x5B # 0x22 # t @ [0x5D]"
    by (simp add: JSON_stringify_strings_def t)
  have sk: "skip_ws (0x5B # 0x22 # t @ [0x5D]) = 0x5B # 0x22 # t @ [0x5D]"
    by (simp add: skip_ws_def is_ws_def)
  show ?thesis
    unfolding JSON_parse_def len
    unfolding shape sk
    by (simp add: pe del: parse_elements.simps)
qed

section \<open>The endpoints of an agent\<close>

lemma find_append_None: "find P xs = None \<Longrightarrow> P a \<Longrightarrow> find P (xs @ [a]) = Some a"
  by (induction xs) (auto split: if_splits)

lemma select_endpoints_handle:
  assumes "select_agent_by_agentId s i = Some ag"
  shows "\<exists>ag'. select_agent_by_agentId (handle e r s) i = Some ag' \<and> endpoints ag' = endpoints ag"
proof (cases r)
  case (Register req)
  from register_cases [of e req s] show ?thesis
    unfolding Register handle.simps
    using assms select_after_append [OF assms]
    by auto
next
  case (VerifyDns aid)
  have "\<exists>ag'. select_agent_by_agentId (update_agent_active s aid cert t) i = Some ag' \<and>
              endpoints ag' = endpoints ag" for cert t
    using assms by (simp add: select_after_update)
  with verify_dns_cases [of e aid s] show ?thesis
    unfolding VerifyDns handle.simps
    using assms by (elim disjE exE conjE) simp_all
qed (simp_all add: assms)

lemma select_endpoints_run:
  "select_agent_by_agentId s i = Some ag \<Longrightarrow>
   \<exists>ag'. select_agent_by_agentId (run tr s) i = Some ag' \<and> endpoints ag' = endpoints ag"
proof (induction tr arbitrary: s ag)
  case Nil
  then show ?case by simp
next
  case (Cons p tr)
  obtain e r where p: "p = (e, r)" by (cases p)
  from select_endpoints_handle [OF Cons.prems, of e r] obtain ag1 where
    "select_agent_by_agentId (handle e r s) i = Some ag1" "endpoints ag1 = endpoints ag"
    by blast
  with Cons.IH [of "handle e r s" ag1] show ?case
    unfolding p by auto
qed

lemma register_Inr_selected:
  assumes "fst (register e req s) = Inr r"
  shows "reg_agentId r = uuidv4 e \<and>
         (\<exists>ag. select_agent_by_agentId (snd (register e req s)) (uuidv4 e) = Some ag \<and>
               endpoints ag = Some (JSON_stringify_strings
                                     (case req_endpoints req of None \<Rightarrow> [] | Some es \<Rightarrow> es)))"
proof -
  from assms obtain dn ver host csr where rq:
    "req_agentDisplayName req = Some dn" "req_version req = Some ver"
    "req_agentHost req = Some host" "req_identityCsrPEM req = Some csr"
    by (auto simp: register_def split: option.splits)
  let ?a = "new_agent_row e req dn ver host csr"
  from assms have fresh: "\<forall>b \<in> set (agents s). agentId b \<noteq> uuidv4 e"
    and st: "snd (register e req s) = insert_challenge (s\<lparr>agents := agents s @ [?a]\<rparr>) (new_challenge_row e)"
    and rid: "reg_agentId r = uuidv4 e"
    by (auto simp: register_def rq Let_def insert_agent_def new_agent_row_def
             split: option.splits if_splits)
  from fresh have "find (\<lambda>a. agentId a = uuidv4 e) (agents s) = None"
    by (auto simp: find_None_iff)
  then have "find (\<lambda>a. agentId a = uuidv4 e) (agents s @ [?a]) = Some ?a"
    by (rule find_append_None) (simp add: new_agent_row_def)
  then have "select_agent_by_agentId (snd (register e req s)) (uuidv4 e) = Some ?a"
    by (simp add: st select_agent_by_agentId_def)
  moreover have "endpoints ?a = Some (JSON_stringify_strings
                                     (case req_endpoints req of None \<Rightarrow> [] | Some es \<Rightarrow> es))"
    by (simp add: new_agent_row_def)
  ultimately show ?thesis using rid by blast
qed

lemma get_agent_endpoints:
  assumes "select_agent_by_agentId s i = Some ag"
    and "endpoints ag = Some (JSON_stringify_strings E)" and "\<not> db_rejects e 0"
  shows "\<exists>g. fst (get_agent e i s) = Inr g \<and> got_endpoints g = JArray (map JString E)"
proof -
  have "JSON_stringify_strings E \<noteq> []"
    by (simp add: JSON_stringify_strings_def)
  with assms show ?thesis
    by (simp add: get_agent_def JSON_parse_stringify_strings)
qed

text \<open>
  C10. After a registration has succeeded (response 202), and after any further
  history of requests, a request for the agent whose lookup the database does not reject
  answers 200 with, as \<open>endpoints\<close>, the array of exactly the strings given at
  registration, in their order; the empty array when the registration gave none.
\<close>

theorem endpoints_round_trip:
  assumes "fst (register e req s) = Inr r" and "\<not> db_rejects e' 0"
  shows "\<exists>g. fst (get_agent e' (reg_agentId r) (run tr (snd (register e req s)))) = Inr g \<and>
             got_endpoints g =
               JArray (map JString (case req_endpoints req of None \<Rightarrow> [] | Some es \<Rightarrow> es))"
proof -
  from register_Inr_selected [OF assms(1)] obtain ag where
    rid: "reg_agentId r = uuidv4 e" and
    sel: "select_agent_by_agentId (snd (register e req s)) (uuidv4 e) = Some ag" and
    ep: "endpoints ag = Some (JSON_stringify_strings
                               (case req_endpoints req of None \<Rightarrow> [] | Some es \<Rightarrow> es))"
    by blast
  from select_endpoints_run [OF sel, of tr] obtain ag' where
    "select_agent_by_agentId (run tr (snd (register e req s))) (uuidv4 e) = Some ag'"
    "endpoints ag' = endpoints ag"
    by blast
  with ep assms(2) show ?thesis
    unfolding rid by (auto intro: get_agent_endpoints)
qed

theorem endpoints_round_trip_witness:
  "map_sum id got_endpoints
     (fst (get_agent bot_env (js ''a1'')
             (run [(bot_env, VerifyDns (js ''a1''))] (snd (register bot_env bot_request empty_store))))) =
   Inr (JArray [JString (js ''https://bot.example.com/a'')])"
proof -
  have ok: "fst (register bot_env bot_request empty_store) =
     Inr \<lparr>reg_agentId = js ''a1'', reg_ansName = js ''ans://v1.bot.example.com'',
          reg_status = PENDING_VALIDATION, reg_validationMethod = js ''DNS-01'',
          reg_dnsRecord = \<lparr>rr_name = js ''_ans-challenge.bot.example.com'', rr_type = js ''TXT'',
                           rr_value = toString_hex (replicate 16 0x2A), rr_ttl = 300\<rparr>,
          reg_expiresAt = 3601000\<rparr>"
    by (simp add: register_bot)
  have nr: "\<not> db_rejects bot_env 0"
    by (simp add: bot_env_def)
  from endpoints_round_trip [OF ok nr, of "[(bot_env, VerifyDns (js ''a1''))]"]
  show ?thesis
    by (auto simp: bot_request_def)
qed

end
